theory Spec2Isabelle
  imports Main "HOL-Library.Word" "HOL-Library.Sublist"
begin

unbundle bit_operations_syntax

section \<open>Data model of the byte-stream screen (qScreen)\<close>

text \<open>
  Go's \<open>byte\<close> is an 8-bit word, \<open>rune\<close> a 32-bit word and \<open>int\<close> a 64-bit word
  read as two's complement (\<open><s\<close>, \<open>\<le>s\<close>); arithmetic wraps as in Go.
\<close>

type_synonym byte = "8 word"
type_synonym rune = "32 word"
type_synonym goint = "64 word"

text \<open>
  Modelled from the spec: the declarations of \<open>Key\<close>, \<open>ModMask\<close>, \<open>ButtonMask\<close>, \<open>Style\<close>
  and of the event constructors \<open>NewEventKey\<close>, \<open>NewEventMouse\<close>, \<open>NewEventResize\<close> are not
  part of the source file. A modifier mask is the set of its flags (\<open>ModNone\<close> is the empty
  set, \<open>mod |= ModAlt\<close> inserts \<open>ModAlt\<close>); an event is the constructor applied to the
  arguments of the call. \<open>Key n\<close> stands for every key other than \<open>KeyRune\<close> and \<open>KeyEsc\<close>.
\<close>

datatype Key = KeyRune | KeyEsc | Key nat

datatype ModFlag = ModShift | ModCtrl | ModAlt | ModMeta

type_synonym ModMask = "ModFlag set"

definition ModNone :: ModMask where
  "ModNone = {}"

datatype ButtonMask = ButtonNone | Button1 | Button2 | Button3 | WheelUp | WheelDown

type_synonym Style = "64 word"

datatype Event =
    EventKey Key rune ModMask
  | EventMouse goint goint ButtonMask ModMask
  | EventResize goint goint

record tKeyCode =
  kc_key :: Key
  kc_mod :: ModMask

text \<open>
  \<open>keycodes\<close> is a Go map from escape string to key code. \<open>parseFunctionKey\<close> ranges
  over it, and Go leaves the order of that iteration open: the table is the list of its
  entries in the order the iteration visits them, and results are stated for every order.
\<close>

type_synonym keytable = "(byte list \<times> tKeyCode) list"

text \<open>
  Modelled from the spec: the cell buffer (\<open>CellBuffer\<close>, with \<open>Size\<close>, \<open>Resize\<close>,
  \<open>Fill\<close>, \<open>SetContent\<close>, \<open>Invalidate\<close>) is not part of the source file. It is the
  triple \<open>(w, h, cells)\<close> of the spec; \<open>Size\<close> returns \<open>(w, h)\<close>.
\<close>

record Cell =
  c_mainc :: rune
  c_combc :: "rune list"
  c_style :: Style
  c_width :: goint
  c_dirty :: bool

record CellBuffer =
  cb_w :: goint
  cb_h :: goint
  cb_cells :: "Cell list"

definition cb_Size :: "CellBuffer \<Rightarrow> goint \<times> goint" where
  "cb_Size cb = (cb_w cb, cb_h cb)"

text \<open>The terminfo capability strings that the modelled operations read.\<close>

record Terminfo =
  ti_Mouse :: string
  ti_ShowCursor :: string
  ti_AttrOff :: string
  ti_Clear :: string
  ti_ExitCA :: string
  ti_ExitKeypad :: string
  ti_MouseMode :: string

text \<open>
  The result of \<open>Transformer.Transform(dst, src, atEOF)\<close> of the charset decoder: the
  bytes written to \<open>dst\<close> (their number is \<open>nDst\<close>), \<open>nSrc\<close> and the error.
\<close>

datatype terr = ErrNil | ErrShortSrc | ErrShortDst | ErrOther

type_synonym transformer = "byte list \<Rightarrow> byte list \<times> nat \<times> terr"

text \<open>A Go channel used as a signal: \<open>nil\<close>, open, or closed.\<close>

datatype chan = ChanNil | ChanOpen | ChanClosed

text \<open>
  Calls that leave the screen: a string handed to \<open>ti.TPuts\<close> for the output stream, the
  close of the quit channel, and the close of either stream.
\<close>

datatype effect = TPutsOut string | CloseQuit | CloseOut | CloseIn

text \<open>
  The fields of \<open>qScreen\<close> (\<open>scr_w\<close> and \<open>scr_h\<close> are its \<open>w\<close> and \<open>h\<close>;
  \<open>kc_key\<close> and \<open>kc_mod\<close> are the \<open>key\<close> and \<open>mod\<close> of a \<open>tKeyCode\<close>).
  \<open>evch\<close> is the content of the event channel, oldest first;
  \<open>posted\<close> lists every event handed to \<open>PostEvent\<close>, whether or not the channel had room
  for it; \<open>effects\<close> lists the calls that leave the screen, in the order they are made.
\<close>

record qScreen =
  ti :: Terminfo
  scr_h :: goint
  scr_w :: goint
  fini :: bool
  cells :: CellBuffer
  curstyle :: Style
  style :: Style
  evch :: "Event list"
  posted :: "Event list"
  quit :: chan
  keycodes :: keytable
  cx :: goint
  cy :: goint
  clear :: bool
  cursorx :: goint
  cursory :: goint
  wasbtn :: bool
  decoder :: transformer
  escaped :: bool
  buttondn :: bool
  forcesize :: bool
  effects :: "effect list"

section \<open>Event channel\<close>

text \<open>\<open>Init\<close> makes the channel with room for ten events.\<close>

definition evch_cap :: nat where
  "evch_cap = 10"

text \<open>
  \<open>PostEvent\<close> sends without blocking: the event is queued when the channel has room and
  dropped (\<open>ErrEventQFull\<close>) otherwise. The parser ignores the returned error.
\<close>

definition PostEvent :: "qScreen \<Rightarrow> Event \<Rightarrow> qScreen" where
  "PostEvent q ev =
     (if length (evch q) < evch_cap
      then q\<lparr>evch := evch q @ [ev], posted := posted q @ [ev]\<rparr>
      else q\<lparr>posted := posted q @ [ev]\<rparr>)"

section \<open>Mouse reports\<close>

definition clip :: "qScreen \<Rightarrow> goint \<Rightarrow> goint \<Rightarrow> goint \<times> goint" where
  "clip q x y =
     (case cb_Size (cells q) of (cw, ch) \<Rightarrow>
        let x = (if x <s 0 then 0 else x);
            y = (if y <s 0 then 0 else y);
            x = (if cw - 1 <s x then cw - 1 else x);
            y = (if ch - 1 <s y then ch - 1 else y)
        in (x, y))"

text \<open>The \<open>switch btn & 0x43\<close> of \<open>postMouseEvent\<close>: the button and the new \<open>wasbtn\<close>.\<close>

definition mouse_button :: "bool \<Rightarrow> goint \<Rightarrow> ButtonMask \<times> bool" where
  "mouse_button wb btn =
     (let c = btn AND 0x43 in
      if c = 0 then (Button1, True)
      else if c = 1 then (Button2, True)
      else if c = 2 then (Button3, True)
      else if c = 3 then (ButtonNone, False)
      else if c = 0x40 then (if \<not> wb then WheelUp else Button1, wb)
      else if c = 0x41 then (if \<not> wb then WheelDown else Button2, wb)
      else (ButtonNone, wb))"

definition mouse_mod :: "goint \<Rightarrow> ModMask" where
  "mouse_mod btn =
     (let m = ModNone;
          m = (if btn AND 0x4 \<noteq> 0 then insert ModShift m else m);
          m = (if btn AND 0x8 \<noteq> 0 then insert ModAlt m else m);
          m = (if btn AND 0x10 \<noteq> 0 then insert ModCtrl m else m)
      in m)"

definition postMouseEvent :: "qScreen \<Rightarrow> goint \<Rightarrow> goint \<Rightarrow> goint \<Rightarrow> qScreen" where
  "postMouseEvent q x y btn =
     (case mouse_button (wasbtn q) btn of (button, wb) \<Rightarrow>
        let q = q\<lparr>wasbtn := wb\<rparr>;
            m = mouse_mod btn
        in case clip q x y of (x, y) \<Rightarrow> PostEvent q (EventMouse x y button m))"


section \<open>Input parser\<close>

text \<open>
  Every matcher returns the screen, the buffer after the bytes it consumed, and the pair
  \<open>(partial, complete)\<close> of the source.
\<close>

type_synonym match = "qScreen \<times> byte list \<times> bool \<times> bool"

subsection \<open>parseSgrMouse\<close>

record sgr =
  sg_x :: goint
  sg_y :: goint
  sg_btn :: goint
  sg_state :: nat
  sg_dig :: bool
  sg_neg :: bool
  sg_val :: goint

definition sgr_init :: sgr where
  "sgr_init = \<lparr>sg_x = 0, sg_y = 0, sg_btn = 0, sg_state = 0, sg_dig = False,
     sg_neg = False, sg_val = 0\<rparr>"

datatype sgr_step = SgrReject | SgrNext sgr | SgrFinal

text \<open>The \<open>switch b[i]\<close> of the loop, up to the terminator \<open>m\<close> or \<open>M\<close>.\<close>

definition sgr_byte :: "sgr \<Rightarrow> byte \<Rightarrow> sgr_step" where
  "sgr_byte s c =
     (if c = 0x1b then
        (if sg_state s \<noteq> 0 then SgrReject else SgrNext (s\<lparr>sg_state := 1\<rparr>))
      else if c = 0x9b then
        (if sg_state s \<noteq> 0 then SgrReject else SgrNext (s\<lparr>sg_state := 2\<rparr>))
      else if c = 0x5b then
        (if sg_state s \<noteq> 1 then SgrReject else SgrNext (s\<lparr>sg_state := 2\<rparr>))
      else if c = 0x3c then
        (if sg_state s \<noteq> 2 then SgrReject
         else SgrNext (s\<lparr>sg_val := 0, sg_dig := False, sg_neg := False, sg_state := 3\<rparr>))
      else if c = 0x2d then
        (if sg_state s \<noteq> 3 \<and> sg_state s \<noteq> 4 \<and> sg_state s \<noteq> 5 then SgrReject
         else if sg_dig s \<or> sg_neg s then SgrReject
         else SgrNext (s\<lparr>sg_neg := True\<rparr>))
      else if 0x30 \<le> c \<and> c \<le> 0x39 then
        (if sg_state s \<noteq> 3 \<and> sg_state s \<noteq> 4 \<and> sg_state s \<noteq> 5 then SgrReject
         else SgrNext (s\<lparr>sg_val := sg_val s * 10 + ucast (c - 0x30), sg_dig := True\<rparr>))
      else if c = 0x3b then
        (let s = (if sg_neg s then s\<lparr>sg_val := - sg_val s\<rparr> else s) in
         if sg_state s = 3 then
           SgrNext (s\<lparr>sg_btn := sg_val s, sg_val := 0, sg_neg := False, sg_dig := False,
             sg_state := 4\<rparr>)
         else if sg_state s = 4 then
           SgrNext (s\<lparr>sg_x := sg_val s - 1, sg_val := 0, sg_neg := False, sg_dig := False,
             sg_state := 5\<rparr>)
         else SgrReject)
      else if c = 0x6d \<or> c = 0x4d then
        (if sg_state s \<noteq> 5 then SgrReject else SgrFinal)
      else SgrNext s)"

text \<open>The terminator at index \<open>i\<close>, in state 5: the report is complete.\<close>

definition sgr_final :: "qScreen \<Rightarrow> byte list \<Rightarrow> sgr \<Rightarrow> nat \<Rightarrow> match" where
  "sgr_final q b s i =
     (let val = (if sg_neg s then - sg_val s else sg_val s);
          y = val - 1;
          motion = (sg_btn s AND 32 \<noteq> 0);
          btn = sg_btn s AND NOT 32;
          (btn, q) =
            (if b ! i = 0x6d then ((btn OR 3) AND NOT 0x40, q\<lparr>buttondn := False\<rparr>)
             else if motion then
               (if \<not> buttondn q then ((btn OR 3) AND NOT 0x40, q) else (btn, q))
             else (btn, q\<lparr>buttondn := True\<rparr>))
      in (postMouseEvent q (sg_x s) y btn, drop (Suc i) b, True, True))"

function sgr_loop :: "qScreen \<Rightarrow> byte list \<Rightarrow> sgr \<Rightarrow> nat \<Rightarrow> match" where
  "sgr_loop q b s i =
     (if i < length b then
        (case sgr_byte s (b ! i) of
           SgrReject \<Rightarrow> (q, b, False, False)
         | SgrNext s' \<Rightarrow> sgr_loop q b s' (Suc i)
         | SgrFinal \<Rightarrow> sgr_final q b s i)
      else (q, b, True, False))"
  by pat_completeness auto
termination
  by (relation "measure (\<lambda>(q, b, s, i). length b - i)") auto

declare sgr_loop.simps [simp del]

definition parseSgrMouse :: "qScreen \<Rightarrow> byte list \<Rightarrow> match" where
  "parseSgrMouse q b = sgr_loop q b sgr_init 0"

subsection \<open>parseXtermMouse\<close>

record xt =
  xt_state :: nat
  xt_btn :: goint
  xt_x :: goint
  xt_y :: goint

definition xt_init :: xt where
  "xt_init = \<lparr>xt_state = 0, xt_btn = 0, xt_x = 0, xt_y = 0\<rparr>"

datatype xt_step = XtReject | XtNext xt | XtFinal goint

definition xt_byte :: "xt \<Rightarrow> byte \<Rightarrow> xt_step" where
  "xt_byte s c =
     (if xt_state s = 0 then
        (if c = 0x1b then XtNext (s\<lparr>xt_state := 1\<rparr>)
         else if c = 0x9b then XtNext (s\<lparr>xt_state := 2\<rparr>)
         else XtReject)
      else if xt_state s = 1 then
        (if c \<noteq> 0x5b then XtReject else XtNext (s\<lparr>xt_state := 2\<rparr>))
      else if xt_state s = 2 then
        (if c \<noteq> 0x4d then XtReject else XtNext (s\<lparr>xt_state := Suc (xt_state s)\<rparr>))
      else if xt_state s = 3 then
        XtNext (s\<lparr>xt_btn := ucast c, xt_state := Suc (xt_state s)\<rparr>)
      else if xt_state s = 4 then
        XtNext (s\<lparr>xt_x := ucast c - 32 - 1, xt_state := Suc (xt_state s)\<rparr>)
      else if xt_state s = 5 then XtFinal (ucast c - 32 - 1)
      else XtNext s)"

function xt_loop :: "qScreen \<Rightarrow> byte list \<Rightarrow> xt \<Rightarrow> nat \<Rightarrow> match" where
  "xt_loop q b s i =
     (if i < length b then
        (case xt_byte s (b ! i) of
           XtReject \<Rightarrow> (q, b, False, False)
         | XtNext s' \<Rightarrow> xt_loop q b s' (Suc i)
         | XtFinal y \<Rightarrow> (postMouseEvent q (xt_x s) y (xt_btn s), drop (Suc i) b, True, True))
      else (q, b, True, False))"
  by pat_completeness auto
termination
  by (relation "measure (\<lambda>(q, b, s, i). length b - i)") auto

declare xt_loop.simps [simp del]

definition parseXtermMouse :: "qScreen \<Rightarrow> byte list \<Rightarrow> match" where
  "parseXtermMouse q b = xt_loop q b xt_init 0"

subsection \<open>parseFunctionKey\<close>

text \<open>
  The loop over the key table, in the order of the iteration. \<open>bytes.HasPrefix(b, esc)\<close>
  is \<open>prefix esc b\<close>.
\<close>

fun fk_loop :: "qScreen \<Rightarrow> byte list \<Rightarrow> bool \<Rightarrow> keytable \<Rightarrow> match" where
  "fk_loop q b partial [] = (q, b, partial, False)"
| "fk_loop q b partial ((esc, k) # rest) =
     (if length esc = 1 \<and> esc ! 0 = 0x1b then fk_loop q b partial rest
      else if prefix esc b then
        (let r = (if length esc = 1 then ucast (b ! 0) else 0);
             m = kc_mod k;
             (m, q) = (if escaped q then (insert ModAlt m, q\<lparr>escaped := False\<rparr>) else (m, q));
             q = PostEvent q (EventKey (kc_key k) r m)
         in (q, drop (length esc) b, True, True))
      else fk_loop q b (if prefix b esc then True else partial) rest)"

definition parseFunctionKey :: "qScreen \<Rightarrow> byte list \<Rightarrow> match" where
  "parseFunctionKey q b = fk_loop q b False (keycodes q)"

subsection \<open>parseRune\<close>

text \<open>
  \<open>utf8.DecodeRune\<close> of Go's standard library, as its documentation and tables give it:
  the first rune of the bytes, or \<open>RuneError\<close> when they are empty or do not start with a
  valid, shortest-form encoding. The caller drops the size.
\<close>

definition RuneError :: rune where
  "RuneError = 0xFFFD"

definition utf8_cont :: "byte \<Rightarrow> byte \<Rightarrow> byte \<Rightarrow> bool" where
  "utf8_cont lo hi c \<longleftrightarrow> lo \<le> c \<and> c \<le> hi"

definition utf8_lo :: "byte \<Rightarrow> byte" where
  "utf8_lo p0 = (if p0 = 0xE0 then 0xA0 else if p0 = 0xF0 then 0x90 else 0x80)"

definition utf8_hi :: "byte \<Rightarrow> byte" where
  "utf8_hi p0 = (if p0 = 0xED then 0x9F else if p0 = 0xF4 then 0x8F else 0xBF)"

definition utf8_size :: "byte \<Rightarrow> nat" where
  "utf8_size p0 =
     (if p0 < 0x80 then 1
      else if 0xC2 \<le> p0 \<and> p0 \<le> 0xDF then 2
      else if 0xE0 \<le> p0 \<and> p0 \<le> 0xEF then 3
      else if 0xF0 \<le> p0 \<and> p0 \<le> 0xF4 then 4
      else 0)"

definition utf8_DecodeRune :: "byte list \<Rightarrow> rune" where
  "utf8_DecodeRune p =
     (case p of
        [] \<Rightarrow> RuneError
      | p0 # _ \<Rightarrow>
          let sz = utf8_size p0 in
          if sz = 0 then RuneError
          else if sz = 1 then ucast p0
          else if length p < sz then RuneError
          else if \<not> utf8_cont (utf8_lo p0) (utf8_hi p0) (p ! 1) then RuneError
          else if sz = 2 then
            push_bit 6 (ucast (p0 AND 0x1F)) OR ucast (p ! 1 AND 0x3F)
          else if \<not> utf8_cont 0x80 0xBF (p ! 2) then RuneError
          else if sz = 3 then
            push_bit 12 (ucast (p0 AND 0x0F)) OR push_bit 6 (ucast (p ! 1 AND 0x3F))
              OR ucast (p ! 2 AND 0x3F)
          else if \<not> utf8_cont 0x80 0xBF (p ! 3) then RuneError
          else
            push_bit 18 (ucast (p0 AND 0x07)) OR push_bit 12 (ucast (p ! 1 AND 0x3F))
              OR push_bit 6 (ucast (p ! 2 AND 0x3F)) OR ucast (p ! 3 AND 0x3F))"

text \<open>
  The loop over the prefix lengths \<open>l = 1 .. len(b)\<close>. \<open>decoder q (take l b)\<close> is
  \<open>q.decoder.Transform(utfb, b[:l], true)\<close> after \<open>Reset\<close>.
\<close>

function rune_loop :: "qScreen \<Rightarrow> byte list \<Rightarrow> nat \<Rightarrow> match" where
  "rune_loop q b l =
     (if l \<le> length b then
        (case decoder q (take l b) of (out, nin, e) \<Rightarrow>
           if e = ErrShortSrc then rune_loop q b (Suc l)
           else if out \<noteq> [] then
             (let r = utf8_DecodeRune out;
                  q = (if r \<noteq> RuneError then
                         (let (m, q) = (if escaped q then ({ModAlt}, q\<lparr>escaped := False\<rparr>)
                                        else (ModNone, q))
                          in PostEvent q (EventKey KeyRune r m))
                       else q)
              in (q, drop nin b, True, True))
           else rune_loop q b (Suc l))
      else (q, b, True, False))"
  by pat_completeness auto
termination
  by (relation "measure (\<lambda>(q, b, l). Suc (length b) - l)") auto

declare rune_loop.simps [simp del]

text \<open>\<open>b[0]\<close> of an empty buffer panics: the result is \<open>None\<close>.\<close>

definition parseRune :: "qScreen \<Rightarrow> byte list \<Rightarrow> match option" where
  "parseRune q b =
     (case b of
        [] \<Rightarrow> None
      | c # _ \<Rightarrow>
          if 0x20 \<le> c \<and> c \<le> 0x7F then
            (let (m, q) = (if escaped q then ({ModAlt}, q\<lparr>escaped := False\<rparr>)
                           else (ModNone, q))
             in Some (PostEvent q (EventKey KeyRune (ucast c) m), drop 1 b, True, True))
          else if c < 0x80 then Some (q, b, False, False)
          else Some (rune_loop q b 1))"

subsection \<open>scanInput\<close>

text \<open>
  One turn of the loop of \<open>scanInput\<close>: \<open>Done\<close> when the function returns (empty buffer)
  or breaks (a partial match that has not expired), \<open>Again\<close> when it continues, \<open>Panic\<close>
  when a matcher panics.
\<close>

datatype step = Done qScreen "byte list" | Again qScreen "byte list" | Panic

text \<open>The branch taken when no matcher completed: \<open>b\<close> is the slice read at the top.\<close>

definition scanFallback :: "qScreen \<Rightarrow> byte list \<Rightarrow> byte list \<Rightarrow> nat \<Rightarrow> bool \<Rightarrow> step" where
  "scanFallback q b buf partials expire =
     (if partials = 0 \<or> expire then
        (if b ! 0 = 0x1b then
           (let q = (if length b = 1
                     then (PostEvent q (EventKey KeyEsc 0 ModNone))\<lparr>escaped := False\<rparr>
                     else q\<lparr>escaped := True\<rparr>)
            in Again q (drop 1 buf))
         else
           (let by = (case buf of [] \<Rightarrow> 0 | c # _ \<Rightarrow> c);
                (m, q) = (if escaped q then ({ModAlt}, q\<lparr>escaped := False\<rparr>)
                          else (ModNone, q))
            in Again (PostEvent q (EventKey KeyRune (ucast by) m)) (drop 1 buf)))
      else Done q buf)"

definition scanMouse :: "qScreen \<Rightarrow> byte list \<Rightarrow> byte list \<Rightarrow> nat \<Rightarrow> bool \<Rightarrow> step" where
  "scanMouse q b buf partials expire =
     (if ti_Mouse (ti q) \<noteq> [] then
        (case parseXtermMouse q buf of (q, buf, part, complete) \<Rightarrow>
           if complete then Again q buf
           else
             (let partials = (if part then Suc partials else partials) in
              case parseSgrMouse q buf of (q, buf, part, complete) \<Rightarrow>
                if complete then Again q buf
                else scanFallback q b buf (if part then Suc partials else partials) expire))
      else scanFallback q b buf partials expire)"

definition scanStep :: "qScreen \<Rightarrow> byte list \<Rightarrow> bool \<Rightarrow> step" where
  "scanStep q buf expire =
     (let b = buf in
      if length b = 0 then Done q []
      else
        (case parseRune q buf of
           None \<Rightarrow> Panic
         | Some (q, buf, part, complete) \<Rightarrow>
             if complete then Again q buf
             else
               (let partials = (if part then 1 else 0) in
                case parseFunctionKey q buf of (q, buf, part, complete) \<Rightarrow>
                  if complete then Again q buf
                  else scanMouse q b buf (if part then Suc partials else partials) expire)))"

text \<open>
  The loop itself. Nothing in the code bounds it: a matcher that completes without
  consuming a byte makes it run forever, and \<open>None\<close> is the run that does not return.
\<close>

partial_function (option) scanInput :: "qScreen \<Rightarrow> byte list \<Rightarrow> bool \<Rightarrow> (qScreen \<times> byte list) option" where
  "scanInput q buf expire =
     (case scanStep q buf expire of
        Done q' buf' \<Rightarrow> Some (q', buf')
      | Again q' buf' \<Rightarrow> scanInput q' buf' expire
      | Panic \<Rightarrow> None)"

declare scanInput.simps [code]

subsection \<open>inputLoop\<close>

text \<open>
  The two branches of the loop of \<open>inputLoop\<close> that reach the parser, on the screen and
  the task's buffer: a chunk was read (\<open>buf.Write(chunk[:n])\<close>, then a scan that does not
  expire), and the read reported \<open>io.EOF\<close> (a scan that expires, when the buffer is not
  empty).
\<close>

definition inputChunk :: "qScreen \<times> byte list \<Rightarrow> byte list \<Rightarrow> (qScreen \<times> byte list) option" where
  "inputChunk st chunk = (case st of (q, buf) \<Rightarrow> scanInput q (buf @ chunk) False)"

definition inputEOF :: "qScreen \<times> byte list \<Rightarrow> (qScreen \<times> byte list) option" where
  "inputEOF st = (case st of (q, buf) \<Rightarrow> if length buf > 0 then scanInput q buf True else Some (q, buf))"

section \<open>Screen facade\<close>

text \<open>
  What the facade calls outside the source file: the operations of the cell buffer, the
  parametric capability formatter \<open>ti.TParm\<close>, and the draw pass (\<open>draw\<close> with
  \<open>drawCell\<close>, \<open>sendFgBg\<close>, \<open>encodeRune\<close>, which writes the cells through the terminfo
  and charset collaborators). The facade is stated for every choice of them.
\<close>

record ext =
  x_Resize :: "CellBuffer \<Rightarrow> goint \<Rightarrow> goint \<Rightarrow> CellBuffer"
  x_Invalidate :: "CellBuffer \<Rightarrow> CellBuffer"
  x_Fill :: "CellBuffer \<Rightarrow> rune \<Rightarrow> Style \<Rightarrow> CellBuffer"
  x_SetContent :: "CellBuffer \<Rightarrow> goint \<Rightarrow> goint \<Rightarrow> rune \<Rightarrow> rune list \<Rightarrow> Style \<Rightarrow> CellBuffer"
  x_TParm :: "string \<Rightarrow> goint list \<Rightarrow> string"
  x_draw :: "qScreen \<Rightarrow> qScreen"

definition TPuts :: "qScreen \<Rightarrow> string \<Rightarrow> qScreen" where
  "TPuts q s = q\<lparr>effects := effects q @ [TPutsOut s]\<rparr>"

text \<open>
  \<open>Fini\<close>. Closing a channel that is already closed panics (\<open>None\<close>); a \<open>nil\<close> quit
  channel (no \<open>Init\<close>) is left alone.
\<close>

definition Fini :: "ext \<Rightarrow> qScreen \<Rightarrow> qScreen option" where
  "Fini x q =
     (let t = ti q;
          q = q\<lparr>cells := x_Resize x (cells q) 0 0\<rparr>;
          q = TPuts q (ti_ShowCursor t);
          q = TPuts q (ti_AttrOff t);
          q = TPuts q (ti_Clear t);
          q = TPuts q (ti_ExitCA t);
          q = TPuts q (ti_ExitKeypad t);
          q = TPuts q (x_TParm x (ti_MouseMode t) [0]);
          q = q\<lparr>curstyle := - 1\<rparr>;
          q = q\<lparr>clear := False\<rparr>;
          q = q\<lparr>fini := True\<rparr>
      in if quit q = ChanClosed then None
         else
           (let q = (if quit q \<noteq> ChanNil
                     then q\<lparr>quit := ChanClosed, effects := effects q @ [CloseQuit]\<rparr>
                     else q);
                q = q\<lparr>effects := effects q @ [CloseOut]\<rparr>;
                q = q\<lparr>effects := effects q @ [CloseIn]\<rparr>
            in Some q))"

definition SetStyle :: "qScreen \<Rightarrow> Style \<Rightarrow> qScreen" where
  "SetStyle q st = (if \<not> fini q then q\<lparr>style := st\<rparr> else q)"

definition Fill :: "ext \<Rightarrow> qScreen \<Rightarrow> rune \<Rightarrow> Style \<Rightarrow> qScreen" where
  "Fill x q r st = (if \<not> fini q then q\<lparr>cells := x_Fill x (cells q) r st\<rparr> else q)"

definition SetContent :: "ext \<Rightarrow> qScreen \<Rightarrow> goint \<Rightarrow> goint \<Rightarrow> rune \<Rightarrow> rune list \<Rightarrow> Style \<Rightarrow> qScreen" where
  "SetContent x q px py mainc combc st =
     (if \<not> fini q then q\<lparr>cells := x_SetContent x (cells q) px py mainc combc st\<rparr> else q)"

definition ShowCursor :: "qScreen \<Rightarrow> goint \<Rightarrow> goint \<Rightarrow> qScreen" where
  "ShowCursor q px py = q\<lparr>cursorx := px, cursory := py\<rparr>"

definition HideCursor :: "qScreen \<Rightarrow> qScreen" where
  "HideCursor q = ShowCursor q (- 1) (- 1)"

definition getWinSize :: "qScreen \<Rightarrow> goint \<times> goint" where
  "getWinSize q = (scr_w q, scr_h q)"

definition resize :: "ext \<Rightarrow> qScreen \<Rightarrow> qScreen" where
  "resize x q =
     (case getWinSize q of (nw, nh) \<Rightarrow>
        if nw \<noteq> scr_w q \<or> nh \<noteq> scr_h q \<or> forcesize q then
          (let q = q\<lparr>cx := - 1\<rparr>;
               q = q\<lparr>cy := - 1\<rparr>;
               q = q\<lparr>forcesize := False\<rparr>;
               q = q\<lparr>cells := x_Resize x (cells q) nw nh\<rparr>;
               q = q\<lparr>cells := x_Invalidate x (cells q)\<rparr>;
               q = q\<lparr>scr_h := nh\<rparr>;
               q = q\<lparr>scr_w := nw\<rparr>
           in PostEvent q (EventResize nw nh))
        else q)"

definition Show :: "ext \<Rightarrow> qScreen \<Rightarrow> qScreen" where
  "Show x q = (if \<not> fini q then x_draw x (resize x q) else q)"

definition Sync :: "ext \<Rightarrow> qScreen \<Rightarrow> qScreen" where
  "Sync x q =
     (let q = q\<lparr>cx := - 1\<rparr>;
          q = q\<lparr>cy := - 1\<rparr>
      in if \<not> fini q then
           (let q = resize x q;
                q = q\<lparr>clear := True\<rparr>;
                q = q\<lparr>cells := x_Invalidate x (cells q)\<rparr>
            in x_draw x q)
         else q)"

text \<open>
  \<open>PollEvent\<close> is a \<open>select\<close> over the quit channel and the event channel: each ready
  case is a possible outcome (Go picks one of them), and the empty set is the call that
  blocks. The outcome is the returned event (\<open>None\<close> for \<open>nil\<close>) and the screen after it.
\<close>

definition PollEvent :: "qScreen \<Rightarrow> (Event option \<times> qScreen) set" where
  "PollEvent q =
     (if quit q = ChanClosed then {(None, q)} else {}) \<union>
     (case evch q of [] \<Rightarrow> {} | ev # rest \<Rightarrow> {(Some ev, q\<lparr>evch := rest\<rparr>)})"

section \<open>Example configurations\<close>

text \<open>
  Two charset decoders of the kind the screen is given. ISO 8859-1 maps every byte to
  the rune of the same number; US-ASCII has no rune for a byte above \<open>0x7F\<close> and writes
  the replacement character \<open>U+FFFD\<close> for it. Both consume one byte at a time.
\<close>

definition latin1_decoder :: transformer where
  "latin1_decoder src =
     (case src of
        [] \<Rightarrow> ([], 0, ErrNil)
      | c # _ \<Rightarrow>
          (if c < 0x80 then [c] else [0xC0 OR drop_bit 6 c, 0x80 OR (c AND 0x3F)], 1, ErrNil))"

definition ascii_decoder :: transformer where
  "ascii_decoder src =
     (case src of
        [] \<Rightarrow> ([], 0, ErrNil)
      | c # _ \<Rightarrow> (if c < 0x80 then [c] else [0xEF, 0xBF, 0xBD], 1, ErrNil))"

text \<open>
  A terminal without mouse and without escape sequences for its keys (as \<open>dumb\<close>): the
  key table holds control bytes only. \<open>Key 13\<close> is the key of carriage return,
  \<open>Key 257\<close> and \<open>Key 258\<close> below the keys \<open>Up\<close> and \<open>Down\<close>.
\<close>

definition ex_ti :: Terminfo where
  "ex_ti = \<lparr>ti_Mouse = [], ti_ShowCursor = ''<cnorm>'', ti_AttrOff = ''<sgr0>'',
     ti_Clear = ''<clear>'', ti_ExitCA = ''<rmcup>'', ti_ExitKeypad = ''<rmkx>'',
     ti_MouseMode = ''<mouse>''\<rparr>"

definition ex_screen :: qScreen where
  "ex_screen = \<lparr>ti = ex_ti, scr_h = 24, scr_w = 80, fini = False,
     cells = \<lparr>cb_w = 80, cb_h = 24, cb_cells = []\<rparr>, curstyle = 0, style = 0,
     evch = [], posted = [], quit = ChanOpen,
     keycodes = [([0x0d], \<lparr>kc_key = Key 13, kc_mod = ModNone\<rparr>),
                 ([0x1b], \<lparr>kc_key = KeyEsc, kc_mod = ModNone\<rparr>)],
     cx = - 1, cy = - 1, clear = False, cursorx = - 1, cursory = - 1, wasbtn = False,
     decoder = latin1_decoder, escaped = False, buttondn = False, forcesize = False,
     effects = []\<rparr>"

text \<open>A terminal with mouse and with escape sequences for \<open>Up\<close> and \<open>Down\<close> (as \<open>xterm\<close>).\<close>

definition ex_xterm :: qScreen where
  "ex_xterm = ex_screen\<lparr>ti := ex_ti\<lparr>ti_Mouse := ''<kmous>''\<rparr>,
     keycodes := [([0x1b, 0x5b, 0x41], \<lparr>kc_key = Key 257, kc_mod = ModNone\<rparr>),
                  ([0x1b, 0x5b, 0x42], \<lparr>kc_key = Key 258, kc_mod = ModNone\<rparr>),
                  ([0x0d], \<lparr>kc_key = Key 13, kc_mod = ModNone\<rparr>)]\<rparr>"

definition ex_ext :: ext where
  "ex_ext = \<lparr>x_Resize = (\<lambda>cb nw nh. \<lparr>cb_w = nw, cb_h = nh, cb_cells = []\<rparr>),
     x_Invalidate = (\<lambda>cb. cb), x_Fill = (\<lambda>cb r st. cb),
     x_SetContent = (\<lambda>cb px py mainc combc st. cb),
     x_TParm = (\<lambda>s args. s), x_draw = (\<lambda>q. q)\<rparr>"

text \<open>A run of mouse reports \<open>(x, y, btn)\<close>, each handed to \<open>postMouseEvent\<close>.\<close>

definition postMouseEvents :: "qScreen \<Rightarrow> (goint \<times> goint \<times> goint) list \<Rightarrow> qScreen" where
  "postMouseEvents q rs = foldl (\<lambda>q (x, y, btn). postMouseEvent q x y btn) q rs"

definition wheel_button :: "goint \<Rightarrow> ButtonMask" where
  "wheel_button btn = (if btn AND 0x43 = 0x40 then WheelUp else WheelDown)"

definition event_button :: "Event \<Rightarrow> ButtonMask option" where
  "event_button ev = (case ev of EventMouse ex ey b m \<Rightarrow> Some b | _ \<Rightarrow> None)"

text \<open>A screen with one event waiting in the channel, and the same screen after \<open>Fini\<close>.\<close>

definition ex_pending :: qScreen where
  "ex_pending = ex_screen\<lparr>evch := [EventKey KeyRune 0x41 ModNone]\<rparr>"

definition ex_finished :: qScreen where
  "ex_finished = (case Fini ex_ext ex_pending of Some q \<Rightarrow> q | None \<Rightarrow> ex_pending)"

text \<open>
  \<open>rune_hit q b l\<close>: the decoder, given the first \<open>l\<close> bytes of \<open>b\<close>, reports something
  other than \<open>ErrShortSrc\<close> and has written output.
\<close>

definition rune_hit :: "qScreen \<Rightarrow> byte list \<Rightarrow> nat \<Rightarrow> bool" where
  "rune_hit q b l = (case decoder q (take l b) of (out, nin, e) \<Rightarrow> e \<noteq> ErrShortSrc \<and> out \<noteq> [])"

text \<open>
  Delivery of an input \<open>s\<close> to a fresh input task: in one piece, or as \<open>s[:k]\<close> followed
  by \<open>s[k:]\<close>; in both cases the read that follows reports \<open>io.EOF\<close>.
\<close>

definition scan_whole :: "qScreen \<Rightarrow> byte list \<Rightarrow> (qScreen \<times> byte list) option" where
  "scan_whole q s =
     (case inputChunk (q, []) s of
        None \<Rightarrow> None
      | Some st \<Rightarrow> inputEOF st)"

definition scan_split :: "qScreen \<Rightarrow> byte list \<Rightarrow> nat \<Rightarrow> (qScreen \<times> byte list) option" where
  "scan_split q s k =
     (case inputChunk (q, []) (take k s) of
        None \<Rightarrow> None
      | Some st \<Rightarrow>
          (case inputChunk st (drop k s) of
             None \<Rightarrow> None
           | Some st' \<Rightarrow> inputEOF st'))"

text \<open>
  The decoder of the default charset, UTF-8. \<open>GetEncoding\<close> and the encoding library are
  not part of this repository. Modelled from the documentation of the library's UTF-8
  validator, called as \<open>parseRune\<close> calls it (\<open>atEOF = true\<close>): the bytes are copied up to
  the first one that does not start a complete, valid encoding; when there is such a byte
  the error is the library's "invalid UTF-8", here \<open>ErrOther\<close>. It never reports
  \<open>ErrShortSrc\<close>. The bound of the destination (12 bytes) is left out: \<open>parseRune\<close> stops
  at the first prefix with output, which has at most four bytes.

  \<open>utf8_rune_len p\<close> is the number of bytes of the encoding at the start of \<open>p\<close>, by the
  tables of \<open>utf8_DecodeRune\<close>, and \<open>0\<close> when \<open>p\<close> is empty or does not start with a
  complete, valid encoding.
\<close>

definition utf8_rune_len :: "byte list \<Rightarrow> nat" where
  "utf8_rune_len p =
     (case p of
        [] \<Rightarrow> 0
      | p0 # _ \<Rightarrow>
          let sz = utf8_size p0 in
          if sz = 0 then 0
          else if sz = 1 then 1
          else if length p < sz then 0
          else if \<not> utf8_cont (utf8_lo p0) (utf8_hi p0) (p ! 1) then 0
          else if sz = 2 then 2
          else if \<not> utf8_cont 0x80 0xBF (p ! 2) then 0
          else if sz = 3 then 3
          else if \<not> utf8_cont 0x80 0xBF (p ! 3) then 0
          else 4)"

function utf8_scan :: "byte list \<Rightarrow> nat" where
  "utf8_scan p =
     (let sz = utf8_rune_len p in
      if sz = 0 then 0 else sz + utf8_scan (drop sz p))"
  by pat_completeness auto
termination
proof (relation "measure length")
  show "wf (measure length)" by simp
next
  fix p :: "byte list" and sz
  assume "sz = utf8_rune_len p" and "sz \<noteq> 0"
  then have "p \<noteq> []" and "0 < sz" by (auto simp: utf8_rune_len_def)
  then show "(drop sz p, p) \<in> measure length" by simp
qed

declare utf8_scan.simps [simp del]

definition utf8_validator :: transformer where
  "utf8_validator src =
     (let n = utf8_scan src in (take n src, n, if n = length src then ErrNil else ErrOther))"

text \<open>The terminal \<open>ex_xterm\<close> with the UTF-8 decoder.\<close>

definition ex_xterm_utf8 :: qScreen where
  "ex_xterm_utf8 = ex_xterm\<lparr>decoder := utf8_validator\<rparr>"

text \<open>
  Conditions on the configuration of a screen under which no matcher decides on a buffer
  that more bytes could decide otherwise.

  \<open>lone_esc_waits\<close>: a buffer that is the single byte \<open>0x1B\<close> is a partial match, because
  the terminal has mouse support or some key sequence of more than one byte starts with
  \<open>0x1B\<close>.

  \<open>keys_unambiguous\<close>: no key sequence is empty; apart from the skipped entry \<open>0x1B\<close>, no
  key sequence is a prefix of another one and every key sequence starts with a byte below
  \<open>0x80\<close>; with mouse support, no key sequence contains \<open><\<close> or starts with \<open>ESC [ M\<close>.

  \<open>decoder_ok\<close>: the decoder never counts more source bytes than it was given and counts
  at least one when it has written output without \<open>ErrShortSrc\<close>; and a buffer that
  starts with a byte of \<open>0x80\<close> or above and has no prefix with \<open>rune_hit\<close>, but gets one
  when more bytes are appended, has only bytes of \<open>0x80\<close> or above. A buffer that has no
  prefix with \<open>rune_hit\<close> whatever bytes follow is not constrained: the UTF-8 decoder
  above is like this on an invalid sequence, a single-byte decoder has no such buffer.
\<close>

definition lone_esc_waits :: "qScreen \<Rightarrow> bool" where
  "lone_esc_waits q \<longleftrightarrow>
     ti_Mouse (ti q) \<noteq> [] \<or> (\<exists>(esc, k) \<in> set (keycodes q). 1 < length esc \<and> hd esc = 0x1b)"

definition keys_unambiguous :: "qScreen \<Rightarrow> bool" where
  "keys_unambiguous q \<longleftrightarrow>
     (\<forall>(esc, k) \<in> set (keycodes q). esc \<noteq> []) \<and>
     (\<forall>(e1, k1) \<in> set (keycodes q). \<forall>(e2, k2) \<in> set (keycodes q).
        e1 \<noteq> [0x1b] \<and> e2 \<noteq> [0x1b] \<and> prefix e1 e2 \<longrightarrow> e1 = e2) \<and>
     (\<forall>(esc, k) \<in> set (keycodes q). esc \<noteq> [0x1b] \<longrightarrow> hd esc < 0x80) \<and>
     (ti_Mouse (ti q) \<noteq> [] \<longrightarrow>
        (\<forall>(esc, k) \<in> set (keycodes q). 0x3c \<notin> set esc \<and> \<not> prefix [0x1b, 0x5b, 0x4d] esc))"

definition decoder_ok :: "qScreen \<Rightarrow> bool" where
  "decoder_ok q \<longleftrightarrow>
     (\<forall>src. case decoder q src of (out, nin, e) \<Rightarrow>
        nin \<le> length src \<and> (e \<noteq> ErrShortSrc \<and> out \<noteq> [] \<longrightarrow> 0 < nin)) \<and>
     (\<forall>b ext. b \<noteq> [] \<and> 0x80 \<le> hd b \<and> (\<forall>l \<in> {1..length b}. \<not> rune_hit q b l) \<and>
        (\<exists>l \<in> {1..length (b @ ext)}. rune_hit q (b @ ext) l) \<longrightarrow> (\<forall>c \<in> set b. 0x80 \<le> c))"

definition stable_config :: "qScreen \<Rightarrow> bool" where
  "stable_config q \<longleftrightarrow> lone_esc_waits q \<and> keys_unambiguous q \<and> decoder_ok q"

text \<open>Two screens with the same key table, decoder and terminfo.\<close>

definition same_config :: "qScreen \<Rightarrow> qScreen \<Rightarrow> bool" where
  "same_config q q' \<longleftrightarrow> keycodes q' = keycodes q \<and> decoder q' = decoder q \<and> ti q' = ti q"

text \<open>
  Three more configurations, each breaking one condition of \<open>keys_unambiguous\<close>: a key
  table in which one sequence is a prefix of another, a key sequence that starts with a
  byte of \<open>0x80\<close> or above (the lead byte of a two-byte encoding, with the UTF-8 decoder),
  and a key sequence that starts with \<open>ESC [ M\<close>, as an X11 mouse report does.
\<close>

definition ex_prefix_keys :: qScreen where
  "ex_prefix_keys = ex_xterm\<lparr>keycodes :=
     [([0x01, 0x02], \<lparr>kc_key = Key 300, kc_mod = ModNone\<rparr>),
      ([0x01], \<lparr>kc_key = Key 1, kc_mod = {ModCtrl}\<rparr>)]\<rparr>"

definition ex_high_key :: qScreen where
  "ex_high_key = ex_xterm_utf8\<lparr>keycodes :=
     [([0xC3], \<lparr>kc_key = Key 301, kc_mod = ModNone\<rparr>)]\<rparr>"

definition ex_mouse_key :: qScreen where
  "ex_mouse_key = ex_xterm_utf8\<lparr>keycodes :=
     [([0x1b, 0x5b, 0x4d, 0x20, 0x21, 0x21, 0x7e], \<lparr>kc_key = Key 302, kc_mod = ModNone\<rparr>)]\<rparr>"

section \<open>Mouse reports: clipping and the debounce latch\<close>

lemma sint_pred:
  fixes cw :: goint
  assumes "0 <s cw"
  shows "sint (cw - 1) = sint cw - 1"
proof -
  have pos: "0 < sint cw" using assms by (simp add: word_sless_alt)
  have lt: "sint cw < 2 ^ 63" using sint_lt [of cw] by simp
  have "sint (cw - 1) = signed_take_bit 63 (sint cw - 1)"
    by (simp add: sint_word_ariths)
  also have "\<dots> = sint cw - 1"
    using pos lt by (intro signed_take_bit_int_eq_self) auto
  finally show ?thesis .
qed

lemma clip_one:
  fixes x cw :: goint
  assumes "0 <s cw"
  shows "0 \<le>s (if cw - 1 <s (if x <s 0 then 0 else x) then cw - 1 else (if x <s 0 then 0 else x))
     \<and> (if cw - 1 <s (if x <s 0 then 0 else x) then cw - 1 else (if x <s 0 then 0 else x)) <s cw"
  using assms sint_pred [OF assms] by (auto simp: word_sless_alt word_sle_eq)

lemma clip_in_range:
  assumes "0 <s cb_w (cells q)" and "0 <s cb_h (cells q)" and "clip q x y = (ex, ey)"
  shows "0 \<le>s ex \<and> ex <s cb_w (cells q) \<and> 0 \<le>s ey \<and> ey <s cb_h (cells q)"
  using assms(3) clip_one [OF assms(1), of x] clip_one [OF assms(2), of y]
  by (simp add: clip_def cb_Size_def Let_def)

lemma posted_PostEvent: "posted (PostEvent q ev) = posted q @ [ev]"
  by (simp add: PostEvent_def)

lemma postMouseEvent_posted:
  "posted (postMouseEvent q x y btn) =
     posted q @ [EventMouse (fst (clip q x y)) (snd (clip q x y))
       (fst (mouse_button (wasbtn q) btn)) (mouse_mod btn)]"
  by (simp add: postMouseEvent_def posted_PostEvent clip_def cb_Size_def Let_def split: prod.splits)

lemma postMouseEvent_cells: "cells (postMouseEvent q x y btn) = cells q"
  by (simp add: postMouseEvent_def PostEvent_def Let_def split: prod.splits)

lemma postMouseEvent_wasbtn:
  "wasbtn (postMouseEvent q x y btn) = snd (mouse_button (wasbtn q) btn)"
  by (simp add: postMouseEvent_def PostEvent_def Let_def split: prod.splits)

text \<open>
  C5, as amended. When the cell buffer has a positive width and height, the mouse event
  that \<open>postMouseEvent\<close> posts carries coordinates in \<open>[0, w) \<times> [0, h)\<close> of the cell
  buffer, whatever raw \<open>x\<close>, \<open>y\<close> and \<open>btn\<close> the wire parsers supply.
\<close>

theorem postMouseEvent_clipped:
  assumes "0 <s cb_w (cells q)" and "0 <s cb_h (cells q)"
  shows "\<exists>ex ey button m.
           posted (postMouseEvent q x y btn) = posted q @ [EventMouse ex ey button m] \<and>
           0 \<le>s ex \<and> ex <s cb_w (cells q) \<and> 0 \<le>s ey \<and> ey <s cb_h (cells q)"
proof -
  obtain ex ey where c: "clip q x y = (ex, ey)" by (cases "clip q x y")
  from clip_in_range [OF assms c] postMouseEvent_posted [of q x y btn] c
  show ?thesis by auto
qed

theorem postMouseEvent_clipped_witness:
  "0 <s cb_w (cells ex_screen) \<and> 0 <s cb_h (cells ex_screen) \<and>
   (\<exists>ex ey button m.
      posted (postMouseEvent ex_screen 500 (- 7) 0) = posted ex_screen @ [EventMouse ex ey button m] \<and>
      0 \<le>s ex \<and> ex <s cb_w (cells ex_screen) \<and> 0 \<le>s ey \<and> ey <s cb_h (cells ex_screen))"
proof -
  have a: "0 <s cb_w (cells ex_screen)" by (simp add: ex_screen_def word_sless_alt)
  have b: "0 <s cb_h (cells ex_screen)" by (simp add: ex_screen_def word_sless_alt)
  show ?thesis using a b postMouseEvent_clipped [OF a b, of 500 "- 7" 0] by simp
qed

text \<open>
  C5, as stated, fails on a cell buffer of size \<open>0 \<times> 0\<close> (its size after \<open>Fini\<close>): the
  report \<open>(5, 7)\<close> is posted with both coordinates \<open>w - 1 = h - 1 = -1\<close>.
\<close>

theorem postMouseEvent_clipped_counterexample:
  "posted (postMouseEvent (ex_screen\<lparr>cells := \<lparr>cb_w = 0, cb_h = 0, cb_cells = []\<rparr>\<rparr>) 5 7 0)
     = [EventMouse (- 1) (- 1) Button1 {}] \<and> \<not> (0 \<le>s (- 1 :: goint))"
  by (simp add: postMouseEvent_posted clip_def cb_Size_def mouse_button_def mouse_mod_def
      ModNone_def ex_screen_def word_sless_alt word_sle_eq)

text \<open>
  C6. The event posted by \<open>postMouseEvent\<close> carries, for \<open>btn & 0x43 = 0x40\<close>, the button
  \<open>WheelUp\<close>, or \<open>Button1\<close> when \<open>wasbtn\<close> is set; for \<open>btn & 0x43 = 0x41\<close>, \<open>WheelDown\<close>,
  or \<open>Button2\<close> when \<open>wasbtn\<close> is set. \<open>wasbtn\<close> becomes true exactly for the codes 0, 1, 2,
  false exactly for the code 3, and keeps its value for every other code.
\<close>

theorem postMouseEvent_buttons:
  "(\<exists>ex ey button.
      posted (postMouseEvent q x y btn) = posted q @ [EventMouse ex ey button (mouse_mod btn)] \<and>
      (btn AND 0x43 = 0x40 \<longrightarrow> button = (if wasbtn q then Button1 else WheelUp)) \<and>
      (btn AND 0x43 = 0x41 \<longrightarrow> button = (if wasbtn q then Button2 else WheelDown))) \<and>
   wasbtn (postMouseEvent q x y btn) =
     (if btn AND 0x43 = 0 \<or> btn AND 0x43 = 1 \<or> btn AND 0x43 = 2 then True
      else if btn AND 0x43 = 3 then False
      else wasbtn q)"
  by (simp add: postMouseEvent_posted postMouseEvent_wasbtn mouse_button_def Let_def)

theorem postMouseEvent_buttons_witness:
  "(64 :: goint) AND 0x43 = 0x40 \<and>
   posted (postMouseEvent ex_screen 2 2 64) = [EventMouse 2 2 WheelUp {}] \<and>
   posted (postMouseEvent (ex_screen\<lparr>wasbtn := True\<rparr>) 2 2 64) = [EventMouse 2 2 Button1 {}] \<and>
   posted (postMouseEvent (ex_screen\<lparr>wasbtn := True\<rparr>) 2 2 65) = [EventMouse 2 2 Button2 {}] \<and>
   wasbtn (postMouseEvent ex_screen 2 2 0) \<and>
   \<not> wasbtn (postMouseEvent (ex_screen\<lparr>wasbtn := True\<rparr>) 2 2 3)"
  using postMouseEvent_buttons [of ex_screen 2 2 64]
    postMouseEvent_buttons [of "ex_screen\<lparr>wasbtn := True\<rparr>" 2 2 64]
    postMouseEvent_buttons [of "ex_screen\<lparr>wasbtn := True\<rparr>" 2 2 65]
    postMouseEvent_buttons [of ex_screen 2 2 0]
    postMouseEvent_buttons [of "ex_screen\<lparr>wasbtn := True\<rparr>" 2 2 3]
  by (simp add: postMouseEvent_posted clip_def cb_Size_def mouse_button_def mouse_mod_def
      ModNone_def ex_screen_def word_sless_alt)

lemma postMouseEvents_snoc:
  "postMouseEvents q (rs @ [(x, y, btn)]) = postMouseEvent (postMouseEvents q rs) x y btn"
  by (simp add: postMouseEvents_def)

lemma wheel_run:
  assumes "\<forall>(x, y, btn) \<in> set rs. btn AND 0x43 = 0x40 \<or> btn AND 0x43 = 0x41"
  shows "wasbtn (postMouseEvents q rs) = wasbtn q \<and>
         (\<not> wasbtn q \<longrightarrow>
            (\<exists>evs. posted (postMouseEvents q rs) = posted q @ evs \<and>
               map event_button evs = map (\<lambda>(x, y, btn). Some (wheel_button btn)) rs))"
  using assms
proof (induction rs rule: rev_induct)
  case Nil
  then show ?case by (simp add: postMouseEvents_def)
next
  case (snoc r rs)
  obtain x y btn where r: "r = (x, y, btn)" by (cases r)
  from snoc.prems r have wheel: "btn AND 0x43 = 0x40 \<or> btn AND 0x43 = 0x41" by simp
  from snoc have ih: "wasbtn (postMouseEvents q rs) = wasbtn q"
    and ih2: "\<not> wasbtn q \<longrightarrow>
            (\<exists>evs. posted (postMouseEvents q rs) = posted q @ evs \<and>
               map event_button evs = map (\<lambda>(x, y, btn). Some (wheel_button btn)) rs)"
    by simp_all
  have w: "wasbtn (postMouseEvents q (rs @ [r])) = wasbtn q"
    using wheel ih by (auto simp: r postMouseEvents_snoc postMouseEvent_wasbtn mouse_button_def)
  have "\<exists>evs. posted (postMouseEvents q (rs @ [r])) = posted q @ evs \<and>
               map event_button evs = map (\<lambda>(x, y, btn). Some (wheel_button btn)) (rs @ [r])"
    if nb: "\<not> wasbtn q"
  proof -
    from ih2 nb obtain evs where e: "posted (postMouseEvents q rs) = posted q @ evs"
      and m: "map event_button evs = map (\<lambda>(x, y, btn). Some (wheel_button btn)) rs" by blast
    let ?ev = "EventMouse (fst (clip (postMouseEvents q rs) x y)) (snd (clip (postMouseEvents q rs) x y))
       (fst (mouse_button (wasbtn (postMouseEvents q rs)) btn)) (mouse_mod btn)"
    have p: "posted (postMouseEvents q (rs @ [r])) = posted q @ (evs @ [?ev])"
      by (simp add: r postMouseEvents_snoc postMouseEvent_posted e)
    have b: "event_button ?ev = Some (wheel_button btn)"
      using wheel ih nb by (auto simp: event_button_def mouse_button_def wheel_button_def)
    show ?thesis using p b m r by (intro exI [of _ "evs @ [?ev]"]) simp
  qed
  with w show ?case by blast
qed

text \<open>
  C10. A report with \<open>btn & 0x43\<close> equal to \<open>0x40\<close> or \<open>0x41\<close> leaves \<open>wasbtn\<close> as it was; so
  over any run of such reports the latch keeps its value, and when it starts clear (no
  button held) every report of the run is posted as \<open>WheelUp\<close> or \<open>WheelDown\<close>.
\<close>

theorem wheel_keeps_latch:
  assumes "\<forall>(x, y, btn) \<in> set rs. btn AND 0x43 = 0x40 \<or> btn AND 0x43 = 0x41"
  shows "(\<forall>(x, y, btn) \<in> set rs. \<forall>q. wasbtn (postMouseEvent q x y btn) = wasbtn q) \<and>
         wasbtn (postMouseEvents q rs) = wasbtn q \<and>
         (\<not> wasbtn q \<longrightarrow>
            (\<exists>evs. posted (postMouseEvents q rs) = posted q @ evs \<and>
               map event_button evs = map (\<lambda>(x, y, btn). Some (wheel_button btn)) rs))"
proof -
  have "\<forall>(x, y, btn) \<in> set rs. \<forall>q. wasbtn (postMouseEvent q x y btn) = wasbtn q"
    using assms by (auto simp: postMouseEvent_wasbtn mouse_button_def)
  with wheel_run [OF assms, of q] show ?thesis by blast
qed

theorem wheel_keeps_latch_witness:
  "(64 :: goint) AND 0x43 = 0x40 \<and> (65 :: goint) AND 0x43 = 0x41 \<and>
   \<not> wasbtn ex_screen \<and>
   \<not> wasbtn (postMouseEvents ex_screen [(2, 2, 64), (2, 3, 65), (2, 4, 64)]) \<and>
   posted (postMouseEvents ex_screen [(2, 2, 64), (2, 3, 65), (2, 4, 64)]) =
     [EventMouse 2 2 WheelUp {}, EventMouse 2 3 WheelDown {}, EventMouse 2 4 WheelUp {}]"
proof -
  have a: "\<forall>(x, y, btn) \<in> set [(2, 2, 64), (2, 3, 65), (2, 4, 64 :: goint)].
      btn AND 0x43 = 0x40 \<or> btn AND 0x43 = 0x41" by simp
  have b: "\<not> wasbtn ex_screen" by (simp add: ex_screen_def)
  have c: "posted (postMouseEvents ex_screen [(2, 2, 64), (2, 3, 65), (2, 4, 64)]) =
     [EventMouse 2 2 WheelUp {}, EventMouse 2 3 WheelDown {}, EventMouse 2 4 WheelUp {}]"
    by (simp add: postMouseEvents_def postMouseEvent_posted postMouseEvent_wasbtn
        postMouseEvent_cells clip_def cb_Size_def mouse_button_def mouse_mod_def ModNone_def
        word_sless_alt ex_screen_def)
  from wheel_keeps_latch [OF a, of ex_screen] a b c show ?thesis by simp
qed

section \<open>Fini and the operations after it\<close>

lemma effects_TPuts: "effects (TPuts q s) = effects q @ [TPutsOut s]"
  by (simp add: TPuts_def)

text \<open>
  C8, as amended. On an initialised screen (open quit channel) \<open>Fini\<close> returns, and what
  it does outside the screen is, in this order: the six teardown capabilities
  (show-cursor, attribute-off, clear, exit-CA, exit-keypad, mouse-mode off) written to the
  output, then the close of the quit channel that stops the input task, then the close
  of the output stream, then the close of the input stream.
\<close>

theorem Fini_order:
  assumes "quit q = ChanOpen"
  shows "\<exists>q'. Fini x q = Some q' \<and> fini q' \<and> quit q' = ChanClosed \<and>
           effects q' = effects q @
             [TPutsOut (ti_ShowCursor (ti q)), TPutsOut (ti_AttrOff (ti q)),
              TPutsOut (ti_Clear (ti q)), TPutsOut (ti_ExitCA (ti q)),
              TPutsOut (ti_ExitKeypad (ti q)), TPutsOut (x_TParm x (ti_MouseMode (ti q)) [0]),
              CloseQuit, CloseOut, CloseIn]"
  using assms by (simp add: Fini_def TPuts_def Let_def)

theorem Fini_order_witness:
  "quit ex_screen = ChanOpen \<and>
   (\<exists>q'. Fini ex_ext ex_screen = Some q' \<and> fini q' \<and> quit q' = ChanClosed \<and>
      effects q' =
        [TPutsOut ''<cnorm>'', TPutsOut ''<sgr0>'', TPutsOut ''<clear>'', TPutsOut ''<rmcup>'',
         TPutsOut ''<rmkx>'', TPutsOut ''<mouse>'', CloseQuit, CloseOut, CloseIn])"
proof -
  have a: "quit ex_screen = ChanOpen" by (simp add: ex_screen_def)
  show ?thesis using a Fini_order [OF a, of ex_ext]
    by (simp add: ex_screen_def ex_ti_def ex_ext_def)
qed

text \<open>
  C8, as stated, fails: the stop signal is not the first step. On the example screen the
  six capabilities are written before the quit channel is closed.
\<close>

theorem Fini_order_counterexample:
  "map_option effects (Fini ex_ext ex_screen) =
     Some [TPutsOut ''<cnorm>'', TPutsOut ''<sgr0>'', TPutsOut ''<clear>'', TPutsOut ''<rmcup>'',
       TPutsOut ''<rmkx>'', TPutsOut ''<mouse>'', CloseQuit, CloseOut, CloseIn] \<and>
   map_option (hd \<circ> effects) (Fini ex_ext ex_screen) \<noteq> Some CloseQuit"
  by (simp add: Fini_def TPuts_def Let_def ex_screen_def ex_ti_def ex_ext_def)

lemma Fini_returns: "quit q = ChanOpen \<Longrightarrow> \<exists>q'. Fini x q = Some q'"
  by (simp add: Fini_def TPuts_def Let_def)

lemma Fini_fini: "Fini x q = Some q' \<Longrightarrow> fini q'"
  by (auto simp: Fini_def TPuts_def Let_def split: if_splits)

lemma Fini_quit: "Fini x q = Some q' \<Longrightarrow> quit q = ChanOpen \<Longrightarrow> quit q' = ChanClosed"
  by (auto simp: Fini_def TPuts_def Let_def split: if_splits)

lemma Fini_evch: "Fini x q = Some q' \<Longrightarrow> evch q' = evch q"
  by (auto simp: Fini_def TPuts_def Let_def split: if_splits)

text \<open>
  C9, as amended. After \<open>Fini\<close> has returned on an initialised screen, \<open>SetContent\<close>,
  \<open>Fill\<close>, \<open>SetStyle\<close> and \<open>Show\<close> leave the screen as it is; \<open>Sync\<close> changes nothing but
  the tracked output position \<open>cx, cy\<close>, which it sets to \<open>-1\<close>; \<open>PollEvent\<close> can return
  \<open>nil\<close>, and returns nothing else when no event waits in the channel.
\<close>

theorem after_Fini:
  assumes "Fini x q = Some q'" and "quit q = ChanOpen"
  shows "SetContent x q' px py mainc combc st = q' \<and>
         Fill x q' r st = q' \<and>
         SetStyle q' st = q' \<and>
         Show x q' = q' \<and>
         Sync x q' = q'\<lparr>cx := - 1, cy := - 1\<rparr> \<and>
         (None, q') \<in> PollEvent q' \<and>
         (evch q = [] \<longrightarrow> PollEvent q' = {(None, q')})"
  using Fini_fini [OF assms(1)] Fini_quit [OF assms] Fini_evch [OF assms(1)]
  by (simp add: SetContent_def Fill_def SetStyle_def Show_def Sync_def PollEvent_def Let_def)

theorem after_Fini_witness:
  "(\<exists>q'. Fini ex_ext ex_screen = Some q' \<and> quit ex_screen = ChanOpen \<and> evch ex_screen = [] \<and>
      SetContent ex_ext q' 1 1 0x41 [] 0 = q' \<and> Fill ex_ext q' 0x20 0 = q' \<and>
      SetStyle q' 7 = q' \<and> Show ex_ext q' = q' \<and>
      Sync ex_ext q' = q'\<lparr>cx := - 1, cy := - 1\<rparr> \<and> PollEvent q' = {(None, q')})"
proof -
  have a: "quit ex_screen = ChanOpen" by (simp add: ex_screen_def)
  have e: "evch ex_screen = []" by (simp add: ex_screen_def)
  from Fini_returns [OF a, of ex_ext] obtain q' where f: "Fini ex_ext ex_screen = Some q'" by blast
  from after_Fini [OF f a] a e f show ?thesis by simp
qed

text \<open>
  C9, as stated, fails. On the example screen with one event waiting, after \<open>Fini\<close>:
  \<open>ShowCursor\<close> still stores the position it is given, and \<open>PollEvent\<close> can return the
  waiting event instead of \<open>nil\<close>.
\<close>

theorem after_Fini_counterexample:
  "Fini ex_ext ex_pending = Some ex_finished \<and> fini ex_finished \<and>
   cursorx ex_finished = - 1 \<and> cursorx (ShowCursor ex_finished 3 4) = 3 \<and>
   ShowCursor ex_finished 3 4 \<noteq> ex_finished \<and>
   (Some (EventKey KeyRune 0x41 ModNone), ex_finished\<lparr>evch := []\<rparr>) \<in> PollEvent ex_finished"
proof -
  have f: "Fini ex_ext ex_pending = Some ex_finished"
    by (simp add: ex_finished_def Fini_def TPuts_def Let_def ex_pending_def ex_screen_def)
  have c: "cursorx ex_finished = - 1" and e: "evch ex_finished = [EventKey KeyRune 0x41 ModNone]"
    by (simp_all add: ex_finished_def Fini_def TPuts_def Let_def ex_pending_def ex_screen_def)
  have s: "cursorx (ShowCursor ex_finished 3 4) = 3" by (simp add: ShowCursor_def)
  have n: "ShowCursor ex_finished 3 4 \<noteq> ex_finished"
  proof
    assume "ShowCursor ex_finished 3 4 = ex_finished"
    then have "cursorx (ShowCursor ex_finished 3 4) = cursorx ex_finished" by simp
    with s c show False by simp
  qed
  have p: "(Some (EventKey KeyRune 0x41 ModNone), ex_finished\<lparr>evch := []\<rparr>) \<in> PollEvent ex_finished"
    by (simp add: PollEvent_def e)
  from f Fini_fini [OF f] c s n p show ?thesis by simp
qed

section \<open>The matchers\<close>

lemma escaped_clear_idem: "\<not> escaped q \<Longrightarrow> q\<lparr>escaped := False\<rparr> = q"
  by (cases q) simp

lemma parseRune_ascii:
  assumes "0x20 \<le> c" and "c \<le> 0x7F"
  shows "parseRune q (c # rest) =
           Some (PostEvent (q\<lparr>escaped := False\<rparr>)
                   (EventKey KeyRune (ucast c) (if escaped q then {ModAlt} else ModNone)),
                 rest, True, True)"
  using assms by (simp add: parseRune_def escaped_clear_idem)

lemma parseRune_control:
  assumes "c < 0x20"
  shows "parseRune q (c # rest) = Some (q, c # rest, False, False)"
proof -
  from assms have "\<not> 0x20 \<le> c" and "c < 0x80" by (simp_all add: word_less_nat_alt word_le_nat_alt)
  then show ?thesis by (simp add: parseRune_def)
qed

text \<open>
  C2, as amended. For a buffer whose first byte \<open>b\<close> satisfies \<open>0x20 \<le> b \<le> 0x7F\<close>,
  \<open>parseRune\<close> posts the event of \<open>NewEventKey(KeyRune, b, mod)\<close>, with \<open>mod\<close> \<open>Alt\<close> when the
  escaped latch is set and \<open>None\<close> otherwise, clears the latch, consumes exactly one byte and
  reports complete; for a buffer whose first byte is below \<open>0x20\<close> it returns
  \<open>(false, false)\<close> and neither consumes a byte nor posts an event.
\<close>

theorem parseRune_low:
  "(0x20 \<le> c \<and> c \<le> 0x7F \<longrightarrow>
      parseRune q (c # rest) =
        Some (PostEvent (q\<lparr>escaped := False\<rparr>)
                (EventKey KeyRune (ucast c) (if escaped q then {ModAlt} else ModNone)),
              rest, True, True)) \<and>
   (c < 0x20 \<longrightarrow> parseRune q (c # rest) = Some (q, c # rest, False, False))"
  using parseRune_ascii [of c q rest] parseRune_control [of c q rest] by blast

theorem parseRune_low_witness:
  "(0x20 :: byte) \<le> 0x41 \<and> (0x41 :: byte) \<le> 0x7F \<and> (0x0d :: byte) < 0x20 \<and>
   parseRune (ex_screen\<lparr>escaped := True\<rparr>) [0x41, 0x42] =
     Some (PostEvent ex_screen (EventKey KeyRune 0x41 {ModAlt}), [0x42], True, True) \<and>
   parseRune ex_screen [0x0d, 0x42] = Some (ex_screen, [0x0d, 0x42], False, False)"
  using parseRune_low [of "0x41" "ex_screen\<lparr>escaped := True\<rparr>" "[0x42]"]
    parseRune_low [of "0x0d" ex_screen "[0x42]"]
  by (simp add: ex_screen_def)

text \<open>
  C2, as stated, fails at the byte \<open>0x7F\<close> (DEL), which is below \<open>0x80\<close> and outside
  \<open>0x20..0x7E\<close>: \<open>parseRune\<close> posts a rune event for it, consumes it and reports complete.
\<close>

theorem parseRune_low_counterexample:
  "(0x7F :: byte) < 0x80 \<and> \<not> (0x7F :: byte) \<le> 0x7E \<and>
   map_option (\<lambda>(q, buf, part, complete). (posted q, buf, part, complete))
     (parseRune ex_screen [0x7F]) = Some ([EventKey KeyRune 0x7F {}], [], True, True)"
  by (simp add: parseRune_def PostEvent_def ModNone_def ex_screen_def evch_cap_def)

lemma fk_loop_find:
  "fk_loop q b p kt =
     (case find (\<lambda>(esc, k). esc \<noteq> [0x1b] \<and> prefix esc b) kt of
        Some (esc, k) \<Rightarrow>
          (PostEvent (q\<lparr>escaped := False\<rparr>)
             (EventKey (kc_key k) (if length esc = 1 then ucast (b ! 0) else 0)
                (if escaped q then insert ModAlt (kc_mod k) else kc_mod k)),
           drop (length esc) b, True, True)
      | None \<Rightarrow> (q, b, p \<or> (\<exists>(esc, k) \<in> set kt. esc \<noteq> [0x1b] \<and> prefix b esc), False))"
proof (induction kt arbitrary: p)
  case Nil
  show ?case by simp
next
  case (Cons ek kt)
  obtain esc k where ek: "ek = (esc, k)" by (cases ek)
  show ?case
  proof (cases "esc = [0x1b]")
    case True
    then show ?thesis using Cons.IH [of p] by (auto simp: ek split: option.splits)
  next
    case False
    then have ns: "\<not> (length esc = 1 \<and> esc ! 0 = 0x1b)" by (cases esc) auto
    show ?thesis
    proof (cases "prefix esc b")
      case True
      with False ns show ?thesis by (auto simp: ek Let_def escaped_clear_idem)
    next
      case np: False
      with False ns Cons.IH [of "if prefix b esc then True else p"] show ?thesis
        by (auto simp: ek split: option.splits)
    qed
  qed
qed

text \<open>
  C3, as amended. \<open>parseFunctionKey\<close> goes through the key table, skipping the entry that
  is the single byte \<open>0x1B\<close>. At the first entry that is a prefix of the buffer it
  consumes the length of the entry, posts \<open>Key{key, rune, mod}\<close> with the first byte as
  rune when the entry has length 1 and no rune otherwise, with \<open>Alt\<close> added to the
  modifier when the escaped latch is set, clears the latch and reports complete. When no
  entry is a prefix of the buffer it changes nothing and reports partial exactly when the
  buffer is a prefix of some entry.
\<close>

theorem parseFunctionKey_match:
  "parseFunctionKey q b =
     (case find (\<lambda>(esc, k). esc \<noteq> [0x1b] \<and> prefix esc b) (keycodes q) of
        Some (esc, k) \<Rightarrow>
          (PostEvent (q\<lparr>escaped := False\<rparr>)
             (EventKey (kc_key k) (if length esc = 1 then ucast (b ! 0) else 0)
                (if escaped q then insert ModAlt (kc_mod k) else kc_mod k)),
           drop (length esc) b, True, True)
      | None \<Rightarrow> (q, b, (\<exists>(esc, k) \<in> set (keycodes q). esc \<noteq> [0x1b] \<and> prefix b esc), False))"
  by (simp add: parseFunctionKey_def fk_loop_find split: option.splits)

theorem parseFunctionKey_match_witness:
  "parseFunctionKey (ex_xterm\<lparr>escaped := True\<rparr>) [0x1b, 0x5b, 0x42, 0x41] =
     (PostEvent ex_xterm (EventKey (Key 258) 0 {ModAlt}), [0x41], True, True) \<and>
   parseFunctionKey ex_xterm [0x0d, 0x41] =
     (PostEvent ex_xterm (EventKey (Key 13) 0x0d {}), [0x41], True, True) \<and>
   parseFunctionKey ex_xterm [0x1b, 0x5b] = (ex_xterm, [0x1b, 0x5b], True, False) \<and>
   parseFunctionKey ex_xterm [0x1b, 0x41] = (ex_xterm, [0x1b, 0x41], False, False)"
  using parseFunctionKey_match [of "ex_xterm\<lparr>escaped := True\<rparr>" "[0x1b, 0x5b, 0x42, 0x41]"]
    parseFunctionKey_match [of ex_xterm "[0x0d, 0x41]"]
    parseFunctionKey_match [of ex_xterm "[0x1b, 0x5b]"]
    parseFunctionKey_match [of ex_xterm "[0x1b, 0x41]"]
  by (simp add: ex_xterm_def ex_screen_def ModNone_def)

text \<open>
  C3, as stated, fails in its last part. In the table of the example screen the entry
  \<open>0x1B\<close> is a proper prefix of the buffer \<open>0x1B 0x5B\<close>, and the function reports neither
  partial nor complete; the entry \<open>0x0D\<close> is a proper prefix of the buffer \<open>0x0D 0x41\<close>,
  and the function completes on it rather than wait for more bytes.
\<close>

theorem parseFunctionKey_counterexample:
  "strict_prefix [0x1b] [0x1b, 0x5b :: byte] \<and>
   parseFunctionKey ex_screen [0x1b, 0x5b] = (ex_screen, [0x1b, 0x5b], False, False) \<and>
   strict_prefix [0x0d] [0x0d, 0x41 :: byte] \<and>
   parseFunctionKey ex_screen [0x0d, 0x41] =
     (PostEvent ex_screen (EventKey (Key 13) 0x0d {}), [0x41], True, True)"
  by (simp add: parseFunctionKey_def ex_screen_def ModNone_def)

lemma rune_loop_find:
  "rune_loop q b l =
     (case find (rune_hit q b) [l..<Suc (length b)] of
        None \<Rightarrow> (q, b, True, False)
      | Some n \<Rightarrow>
          (case decoder q (take n b) of (out, nin, e) \<Rightarrow>
             (if utf8_DecodeRune out \<noteq> RuneError
              then PostEvent (q\<lparr>escaped := False\<rparr>)
                     (EventKey KeyRune (utf8_DecodeRune out) (if escaped q then {ModAlt} else ModNone))
              else q,
              drop nin b, True, True)))"
proof (induction q b l rule: rune_loop.induct)
  case (1 q b l)
  show ?case
  proof (cases "l \<le> length b")
    case False
    then show ?thesis by (simp add: rune_loop.simps [of q b l] del: upt_Suc)
  next
    case True
    then have upt: "[l..<Suc (length b)] = l # [Suc l..<Suc (length b)]"
      by (simp add: upt_conv_Cons)
    obtain out nin e where d: "decoder q (take l b) = (out, nin, e)"
      by (cases "decoder q (take l b)")
    show ?thesis
    proof (cases "e = ErrShortSrc")
      case short: True
      with True d "1.IH"(1) [OF True d [symmetric] refl] show ?thesis
        by (simp add: rune_loop.simps [of q b l] upt rune_hit_def del: upt_Suc)
    next
      case ok: False
      show ?thesis
      proof (cases "out = []")
        case True
        with \<open>l \<le> length b\<close> d ok "1.IH"(2) [OF \<open>l \<le> length b\<close> d [symmetric] refl] show ?thesis
          by (simp add: rune_loop.simps [of q b l] upt rune_hit_def del: upt_Suc)
      next
        case False
        with \<open>l \<le> length b\<close> d ok show ?thesis
          by (simp add: rune_loop.simps [of q b l] upt rune_hit_def Let_def escaped_clear_idem
              del: upt_Suc)
      qed
    qed
  qed
qed

text \<open>
  C7, as amended. For a buffer whose first byte is at least \<open>0x80\<close>, \<open>parseRune\<close> hands
  the decoder the prefixes of length 1, 2, ... of the buffer and stops at the first one
  for which the decoder reports something other than \<open>ErrShortSrc\<close> and has written
  output. It then consumes the source bytes the decoder counted and reports complete;
  it posts \<open>Key{Rune, scalar, Alt if escaped}\<close> and clears the latch when the output
  decodes to a scalar other than \<open>RuneError\<close>, and posts nothing otherwise. When no prefix
  stops the loop it changes nothing and reports partial.
\<close>

theorem parseRune_high:
  assumes "0x80 \<le> c"
  shows "parseRune q (c # rest) =
     Some (case find (rune_hit q (c # rest)) [1..<Suc (length (c # rest))] of
        None \<Rightarrow> (q, c # rest, True, False)
      | Some n \<Rightarrow>
          (case decoder q (take n (c # rest)) of (out, nin, e) \<Rightarrow>
             (if utf8_DecodeRune out \<noteq> RuneError
              then PostEvent (q\<lparr>escaped := False\<rparr>)
                     (EventKey KeyRune (utf8_DecodeRune out) (if escaped q then {ModAlt} else ModNone))
              else q,
              drop nin (c # rest), True, True)))"
proof -
  from assms have "\<not> c \<le> 0x7F" and "\<not> c < 0x80"
    by (simp_all add: word_less_nat_alt word_le_nat_alt)
  then show ?thesis
    by (simp add: parseRune_def rune_loop_find del: upt_Suc)
qed

theorem parseRune_high_witness:
  "(0x80 :: byte) \<le> 0xE9 \<and>
   parseRune (ex_screen\<lparr>escaped := True\<rparr>) [0xE9, 0x41] =
     Some (PostEvent ex_screen (EventKey KeyRune 0xE9 {ModAlt}), [0x41], True, True)"
proof -
  have a: "(0x80 :: byte) \<le> 0xE9" by simp
  have d: "utf8_DecodeRune [0xC3, 0xA9] = 0xE9"
    by (simp add: utf8_DecodeRune_def utf8_size_def utf8_cont_def utf8_lo_def utf8_hi_def Let_def)
  have r: "RuneError \<noteq> 0xE9" by (simp add: RuneError_def)
  show ?thesis
    using a parseRune_high [OF a, of "ex_screen\<lparr>escaped := True\<rparr>" "[0x41]"] d r
    by (simp add: rune_hit_def ex_screen_def latin1_decoder_def upt_conv_Cons)
qed

text \<open>
  C7, as stated, fails where the output does not decode to a valid scalar. With the
  US-ASCII decoder the byte \<open>0xE9\<close> is transformed to \<open>U+FFFD\<close>: \<open>parseRune\<close> posts
  nothing, yet consumes the byte and reports complete, not partial.
\<close>

theorem parseRune_high_counterexample:
  "ascii_decoder [0xE9] = ([0xEF, 0xBF, 0xBD], 1, ErrNil) \<and>
   utf8_DecodeRune [0xEF, 0xBF, 0xBD] = RuneError \<and>
   parseRune (ex_screen\<lparr>decoder := ascii_decoder\<rparr>) [0xE9, 0x41] =
     Some (ex_screen\<lparr>decoder := ascii_decoder\<rparr>, [0x41], True, True)"
proof -
  have d: "utf8_DecodeRune [0xEF, 0xBF, 0xBD] = RuneError"
    by (simp add: utf8_DecodeRune_def utf8_size_def utf8_cont_def utf8_lo_def utf8_hi_def
        Let_def RuneError_def)
  have t: "ascii_decoder [0xE9] = ([0xEF, 0xBF, 0xBD], 1, ErrNil)"
    by (simp add: ascii_decoder_def)
  have "parseRune (ex_screen\<lparr>decoder := ascii_decoder\<rparr>) [0xE9, 0x41] =
     Some (ex_screen\<lparr>decoder := ascii_decoder\<rparr>, [0x41], True, True)"
    by (simp add: parseRune_def rune_loop.simps [of _ _ "Suc 0"] t d)
  with d t show ?thesis by simp
qed

section \<open>The escaped latch\<close>

lemma PostEvent_escaped: "escaped (PostEvent q ev) = escaped q"
  by (simp add: PostEvent_def)

lemma postMouseEvent_escaped: "escaped (postMouseEvent q x y btn) = escaped q"
  by (simp add: postMouseEvent_def PostEvent_def Let_def split: prod.splits)

lemma parseRune_returns:
  assumes "b \<noteq> []"
  shows "\<exists>q' b' p c. parseRune q b = Some (q', b', p, c)"
proof (cases b)
  case Nil
  with assms show ?thesis by simp
next
  case (Cons c0 rest)
  obtain q' b' p c where "rune_loop q b (Suc 0) = (q', b', p, c)"
    by (cases "rune_loop q b (Suc 0)")
  with Cons show ?thesis by (auto simp: parseRune_def Let_def split: prod.splits)
qed

lemma parseRune_effect:
  assumes "parseRune q b = Some (q', b', p, c)"
  shows "(\<not> c \<longrightarrow> q' = q \<and> b' = b) \<and>
         (c \<longrightarrow> q' = q \<or>
            (\<exists>k r m. posted q' = posted q @ [EventKey k r m] \<and> \<not> escaped q' \<and>
               (escaped q \<longrightarrow> ModAlt \<in> m)))"
proof (cases b)
  case Nil
  with assms show ?thesis by (simp add: parseRune_def)
next
  case (Cons c0 rest)
  show ?thesis
  proof (cases "0x20 \<le> c0 \<and> c0 \<le> 0x7F")
    case True
    with assms Cons show ?thesis
      by (auto simp: parseRune_ascii posted_PostEvent PostEvent_escaped)
  next
    case False
    show ?thesis
    proof (cases "c0 < 0x80")
      case True
      with False assms Cons show ?thesis by (auto simp: parseRune_def)
    next
      case hi: False
      then have "\<not> c0 \<le> 0x7F" by (simp add: word_less_nat_alt word_le_nat_alt)
      with hi assms Cons have "rune_loop q b (Suc 0) = (q', b', p, c)"
        by (simp add: parseRune_def)
      then show ?thesis
        by (auto simp: rune_loop_find posted_PostEvent PostEvent_escaped
            split: option.splits prod.splits if_splits)
    qed
  qed
qed

lemma parseFunctionKey_effect:
  assumes "parseFunctionKey q b = (q', b', p, c)"
  shows "(\<not> c \<longrightarrow> q' = q \<and> b' = b) \<and>
         (c \<longrightarrow> (\<exists>k r m. posted q' = posted q @ [EventKey k r m] \<and> \<not> escaped q' \<and>
               (escaped q \<longrightarrow> ModAlt \<in> m)))"
  using assms
  by (auto simp: parseFunctionKey_def fk_loop_find posted_PostEvent PostEvent_escaped
      split: option.splits prod.splits)

lemma xt_loop_effect:
  "xt_loop q b s i = (q', b', p, c) \<Longrightarrow>
     (\<not> c \<longrightarrow> q' = q \<and> b' = b) \<and>
     (c \<longrightarrow> escaped q' = escaped q \<and>
        (\<exists>x y bt m. posted q' = posted q @ [EventMouse x y bt m]))"
proof (induction q b s i rule: xt_loop.induct)
  case (1 q b s i)
  show ?case
  proof (cases "i < length b")
    case False
    with "1.prems" show ?thesis by (auto simp: xt_loop.simps [of q b s i])
  next
    case True
    show ?thesis
    proof (cases "xt_byte s (b ! i)")
      case XtReject
      with True "1.prems" show ?thesis by (auto simp: xt_loop.simps [of q b s i])
    next
      case (XtNext s')
      with True "1.prems" have "xt_loop q b s' (Suc i) = (q', b', p, c)"
        by (simp add: xt_loop.simps [of q b s i])
      with "1.IH" [OF True XtNext] show ?thesis by simp
    next
      case (XtFinal y)
      with True "1.prems" show ?thesis
        by (auto simp: xt_loop.simps [of q b s i] postMouseEvent_escaped postMouseEvent_posted)
    qed
  qed
qed

lemma sgr_loop_effect:
  "sgr_loop q b s i = (q', b', p, c) \<Longrightarrow>
     (\<not> c \<longrightarrow> q' = q \<and> b' = b) \<and>
     (c \<longrightarrow> escaped q' = escaped q \<and>
        (\<exists>x y bt m. posted q' = posted q @ [EventMouse x y bt m]))"
proof (induction q b s i rule: sgr_loop.induct)
  case (1 q b s i)
  show ?case
  proof (cases "i < length b")
    case False
    with "1.prems" show ?thesis by (auto simp: sgr_loop.simps [of q b s i])
  next
    case True
    show ?thesis
    proof (cases "sgr_byte s (b ! i)")
      case SgrReject
      with True "1.prems" show ?thesis by (auto simp: sgr_loop.simps [of q b s i])
    next
      case (SgrNext s')
      with True "1.prems" have "sgr_loop q b s' (Suc i) = (q', b', p, c)"
        by (simp add: sgr_loop.simps [of q b s i])
      with "1.IH" [OF True SgrNext] show ?thesis by simp
    next
      case SgrFinal
      from SgrFinal True "1.prems" have f: "sgr_final q b s i = (q', b', p, c)"
        by (simp add: sgr_loop.simps [of q b s i])
      then show ?thesis
        by (auto simp: sgr_final_def Let_def postMouseEvent_escaped postMouseEvent_posted
            split: if_splits)
    qed
  qed
qed







section \<open>Delivery in pieces\<close>

subsection \<open>A decided match stays as it is when bytes are appended\<close>

lemma xt_loop_append:
  "xt_loop q b s i = (q', b', p, c) \<Longrightarrow> c \<or> \<not> p \<Longrightarrow>
     xt_loop q (b @ ext) s i = (q', b' @ ext, p, c)"
proof (induction q b s i rule: xt_loop.induct)
  case (1 q b s i)
  show ?case
  proof (cases "i < length b")
    case False
    with "1.prems" show ?thesis by (auto simp: xt_loop.simps [of q b s i])
  next
    case True
    have L: "xt_loop q b s i =
        (case xt_byte s (b ! i) of
           XtReject \<Rightarrow> (q, b, False, False)
         | XtNext s' \<Rightarrow> xt_loop q b s' (Suc i)
         | XtFinal y \<Rightarrow> (postMouseEvent q (xt_x s) y (xt_btn s), drop (Suc i) b, True, True))"
      using True by (simp add: xt_loop.simps [of q b s i])
    have R: "xt_loop q (b @ ext) s i =
        (case xt_byte s (b ! i) of
           XtReject \<Rightarrow> (q, b @ ext, False, False)
         | XtNext s' \<Rightarrow> xt_loop q (b @ ext) s' (Suc i)
         | XtFinal y \<Rightarrow> (postMouseEvent q (xt_x s) y (xt_btn s), drop (Suc i) b @ ext, True, True))"
      using True by (simp add: xt_loop.simps [of q "b @ ext" s i] nth_append split: xt_step.splits)
    show ?thesis
    proof (cases "xt_byte s (b ! i)")
      case XtReject
      with L R "1.prems" show ?thesis by simp
    next
      case (XtNext s')
      with L "1.prems" have "xt_loop q b s' (Suc i) = (q', b', p, c)" by simp
      from "1.IH" [OF True XtNext this "1.prems"(2)] XtNext R show ?thesis by simp
    next
      case (XtFinal y)
      with L R "1.prems" show ?thesis by simp
    qed
  qed
qed

lemma sgr_final_append:
  "i < length b \<Longrightarrow> sgr_final q b s i = (q', b', p, c) \<Longrightarrow>
     sgr_final q (b @ ext) s i = (q', b' @ ext, p, c)"
  by (auto simp: sgr_final_def Let_def nth_append split: prod.splits if_splits)

lemma sgr_loop_append:
  "sgr_loop q b s i = (q', b', p, c) \<Longrightarrow> c \<or> \<not> p \<Longrightarrow>
     sgr_loop q (b @ ext) s i = (q', b' @ ext, p, c)"
proof (induction q b s i rule: sgr_loop.induct)
  case (1 q b s i)
  show ?case
  proof (cases "i < length b")
    case False
    with "1.prems" show ?thesis by (auto simp: sgr_loop.simps [of q b s i])
  next
    case True
    have L: "sgr_loop q b s i =
        (case sgr_byte s (b ! i) of
           SgrReject \<Rightarrow> (q, b, False, False)
         | SgrNext s' \<Rightarrow> sgr_loop q b s' (Suc i)
         | SgrFinal \<Rightarrow> sgr_final q b s i)"
      using True by (simp add: sgr_loop.simps [of q b s i])
    have R: "sgr_loop q (b @ ext) s i =
        (case sgr_byte s (b ! i) of
           SgrReject \<Rightarrow> (q, b @ ext, False, False)
         | SgrNext s' \<Rightarrow> sgr_loop q (b @ ext) s' (Suc i)
         | SgrFinal \<Rightarrow> sgr_final q (b @ ext) s i)"
      using True by (simp add: sgr_loop.simps [of q "b @ ext" s i] nth_append)
    show ?thesis
    proof (cases "sgr_byte s (b ! i)")
      case SgrReject
      with L R "1.prems" show ?thesis by simp
    next
      case (SgrNext s')
      with L "1.prems" have "sgr_loop q b s' (Suc i) = (q', b', p, c)" by simp
      from "1.IH" [OF True SgrNext this "1.prems"(2)] SgrNext R show ?thesis by simp
    next
      case SgrFinal
      with L "1.prems" have "sgr_final q b s i = (q', b', p, c)" by simp
      from sgr_final_append [OF True this] SgrFinal R show ?thesis by simp
    qed
  qed
qed

lemma rune_loop_append:
  "(\<forall>src. fst (snd (decoder q src)) \<le> length src) \<Longrightarrow>
   rune_loop q b l = (q', b', p, True) \<Longrightarrow>
     rune_loop q (b @ ext) l = (q', b' @ ext, p, True)"
proof (induction q b l rule: rune_loop.induct)
  case (1 q b l)
  note dec = "1.prems"(1)
  show ?case
  proof (cases "l \<le> length b")
    case False
    with "1.prems" show ?thesis by (auto simp: rune_loop.simps [of q b l])
  next
    case True
    obtain out nin e where d: "decoder q (take l b) = (out, nin, e)"
      by (cases "decoder q (take l b)")
    from dec [rule_format, of "take l b"] d True have nin: "nin \<le> length b" by simp
    let ?hit = "\<lambda>buf. (if utf8_DecodeRune out \<noteq> RuneError
             then (let (m, q) = (if escaped q then ({ModAlt}, q\<lparr>escaped := False\<rparr>)
                                 else (ModNone, q))
                   in PostEvent q (EventKey KeyRune (utf8_DecodeRune out) m))
             else q, buf, True, True)"
    have L: "rune_loop q b l =
        (if e = ErrShortSrc \<or> out = [] then rune_loop q b (Suc l) else ?hit (drop nin b))"
      using True d by (simp add: rune_loop.simps [of q b l] Let_def)
    have R: "rune_loop q (b @ ext) l =
        (if e = ErrShortSrc \<or> out = [] then rune_loop q (b @ ext) (Suc l)
         else ?hit (drop nin b @ ext))"
      using True d nin by (simp add: rune_loop.simps [of q "b @ ext" l] Let_def)
    show ?thesis
    proof (cases "e = ErrShortSrc")
      case short: True
      with L "1.prems"(2) have "rune_loop q b (Suc l) = (q', b', p, True)" by simp
      from "1.IH"(1) [OF True d [symmetric] refl short dec this] short R show ?thesis by simp
    next
      case ok: False
      show ?thesis
      proof (cases "out = []")
        case True
        with L "1.prems"(2) have "rune_loop q b (Suc l) = (q', b', p, True)" by simp
        from "1.IH"(2) [OF \<open>l \<le> length b\<close> d [symmetric] refl ok _ dec this] True R
        show ?thesis by simp
      next
        case False
        with ok L R "1.prems"(2) show ?thesis by simp
      qed
    qed
  qed
qed

lemma parseRune_append:
  assumes "\<forall>src. fst (snd (decoder q src)) \<le> length src"
    and "parseRune q b = Some (q', b', p, c)" and "c \<or> \<not> p"
  shows "parseRune q (b @ ext) = Some (q', b' @ ext, p, c)"
proof (cases b)
  case Nil
  with assms show ?thesis by (simp add: parseRune_def)
next
  case (Cons c0 rest)
  show ?thesis
  proof (cases "0x20 \<le> c0 \<and> c0 \<le> 0x7F")
    case True
    with assms(2) Cons show ?thesis by (auto simp: parseRune_ascii)
  next
    case False
    show ?thesis
    proof (cases "c0 < 0x80")
      case True
      with False assms(2) Cons show ?thesis by (auto simp: parseRune_def)
    next
      case hi: False
      then have "\<not> c0 \<le> 0x7F" by (simp add: word_less_nat_alt word_le_nat_alt)
      with hi Cons have e: "parseRune q b = Some (rune_loop q b (Suc 0))"
        and e': "parseRune q (b @ ext) = Some (rune_loop q (b @ ext) (Suc 0))"
        by (simp_all add: parseRune_def)
      from e assms(2) have r: "rune_loop q b (Suc 0) = (q', b', p, c)" by simp
      then have "p" by (auto simp: rune_loop_find split: option.splits prod.splits)
      with assms(3) have c by simp
      with r rune_loop_append [OF assms(1), of b "Suc 0" q' b' p ext] e' show ?thesis by simp
    qed
  qed
qed

lemma find_SomeD: "find P xs = Some x \<Longrightarrow> P x \<and> x \<in> set xs"
  by (induction xs) (auto split: if_splits)

lemma find_key_append_aux:
  fixes b :: "byte list" and kt :: keytable
  shows "find (\<lambda>(esc, k). esc \<noteq> [0x1b] \<and> prefix esc b) kt = Some (e, k) \<Longrightarrow>
     (\<forall>(e', k') \<in> set kt. e' \<noteq> [0x1b] \<and> prefix e e' \<longrightarrow> e = e') \<Longrightarrow>
     find (\<lambda>(esc, k). esc \<noteq> [0x1b] \<and> prefix esc (b @ ext)) kt = Some (e, k)"
proof (induction kt)
  case Nil
  then show ?case by simp
next
  case (Cons ek0 kt)
  obtain e0 k0 where ek0: "ek0 = (e0, k0)" by (cases ek0)
  from find_SomeD [OF Cons.prems(1)] have pe: "prefix e b" and ne: "e \<noteq> [0x1b]" by auto
  show ?case
  proof (cases "e0 \<noteq> [0x1b] \<and> prefix e0 b")
    case True
    with Cons.prems(1) ek0 show ?thesis by (auto simp: prefix_prefix)
  next
    case False
    with Cons.prems(1) ek0
    have f: "find (\<lambda>(esc, k). esc \<noteq> [0x1b] \<and> prefix esc b) kt = Some (e, k)" by auto
    have "\<not> (e0 \<noteq> [0x1b] \<and> prefix e0 (b @ ext))"
    proof
      assume a: "e0 \<noteq> [0x1b] \<and> prefix e0 (b @ ext)"
      from pe have "prefix e (b @ ext)" by (simp add: prefix_prefix)
      with a have "prefix e e0 \<or> prefix e0 e" by (metis prefix_same_cases)
      then have "prefix e0 e"
      proof
        assume "prefix e e0"
        with Cons.prems(2) a ek0 have "e = e0" by auto
        then show ?thesis by simp
      qed simp
      with pe have "prefix e0 b" by (metis prefix_order.order_trans)
      with a False show False by simp
    qed
    with Cons.IH [OF f] Cons.prems(2) ek0 show ?thesis by auto
  qed
qed

lemma find_key_append:
  fixes b :: "byte list" and kt :: keytable
  assumes pf: "\<forall>(e1, k1) \<in> set kt. \<forall>(e2, k2) \<in> set kt.
        e1 \<noteq> [0x1b] \<and> e2 \<noteq> [0x1b] \<and> prefix e1 e2 \<longrightarrow> e1 = e2"
    and f: "find (\<lambda>(esc, k). esc \<noteq> [0x1b] \<and> prefix esc b) kt = Some (e, k)"
  shows "find (\<lambda>(esc, k). esc \<noteq> [0x1b] \<and> prefix esc (b @ ext)) kt = Some (e, k)"
proof -
  from find_SomeD [OF f] have "(e, k) \<in> set kt" and "e \<noteq> [0x1b]" by auto
  with pf have "\<forall>(e', k') \<in> set kt. e' \<noteq> [0x1b] \<and> prefix e e' \<longrightarrow> e = e'" by fastforce
  from find_key_append_aux [OF f this] show ?thesis .
qed

lemma find_key_none_append:
  fixes b :: "byte list" and kt :: keytable
  assumes "find (\<lambda>(esc, k). esc \<noteq> [0x1b] \<and> prefix esc b) kt = None"
    and "\<not> (\<exists>(esc, k) \<in> set kt. esc \<noteq> [0x1b] \<and> prefix b esc)"
  shows "find (\<lambda>(esc, k). esc \<noteq> [0x1b] \<and> prefix esc (b @ ext)) kt = None \<and>
         \<not> (\<exists>(esc, k) \<in> set kt. esc \<noteq> [0x1b] \<and> prefix (b @ ext) esc)"
proof -
  have "\<not> prefix esc (b @ ext)" if "(esc, k) \<in> set kt" "esc \<noteq> [0x1b]" for esc k
  proof
    assume "prefix esc (b @ ext)"
    then have "prefix esc b \<or> prefix b esc" by (auto simp: prefix_append)
    with assms that show False by (auto simp: find_None_iff)
  qed
  moreover have "\<not> prefix (b @ ext) esc" if "(esc, k) \<in> set kt" "esc \<noteq> [0x1b]" for esc k
    using assms(2) that by (auto dest: append_prefixD)
  ultimately show ?thesis by (auto simp: find_None_iff)
qed

lemma parseFunctionKey_append:
  assumes pf: "\<forall>(e1, k1) \<in> set (keycodes q). \<forall>(e2, k2) \<in> set (keycodes q).
        e1 \<noteq> [0x1b] \<and> e2 \<noteq> [0x1b] \<and> prefix e1 e2 \<longrightarrow> e1 = e2"
    and ne: "\<forall>(esc, k) \<in> set (keycodes q). esc \<noteq> []"
    and r: "parseFunctionKey q b = (q', b', p, c)" and d: "c \<or> \<not> p"
  shows "parseFunctionKey q (b @ ext) = (q', b' @ ext, p, c)"
proof (cases "find (\<lambda>(esc, k). esc \<noteq> [0x1b] \<and> prefix esc b) (keycodes q)")
  case None
  with r d have np: "\<not> (\<exists>(esc, k) \<in> set (keycodes q). esc \<noteq> [0x1b] \<and> prefix b esc)"
    and res: "q' = q" "b' = b" "\<not> p" "\<not> c"
    by (auto simp: parseFunctionKey_def fk_loop_find)
  from find_key_none_append [OF None np, of ext] res show ?thesis
    by (simp add: parseFunctionKey_def fk_loop_find)
next
  case (Some ek)
  obtain e k where ek: "ek = (e, k)" by (cases ek)
  from find_SomeD [OF Some] ek have mem: "(e, k) \<in> set (keycodes q)" and pre: "prefix e b"
    by auto
  from mem ne have "e \<noteq> []" by auto
  with pre have len: "length e \<le> length b" and b0: "(b @ ext) ! 0 = b ! 0"
    by (auto simp: prefix_def nth_append)
  from find_key_append [OF pf Some [unfolded ek], of ext] Some ek r len b0 show ?thesis
    by (auto simp: parseFunctionKey_def fk_loop_find)
qed

subsection \<open>No matcher completes where an earlier one waits\<close>

lemma rune_partial_nohit:
  assumes "parseRune q b = Some (q', b', True, False)"
  shows "b \<noteq> [] \<and> 0x80 \<le> hd b \<and> (\<forall>l \<in> {1..length b}. \<not> rune_hit q b l)"
proof (cases b)
  case Nil
  with assms show ?thesis by (simp add: parseRune_def)
next
  case (Cons c0 rest)
  have "\<not> (0x20 \<le> c0 \<and> c0 \<le> 0x7F)"
    using assms Cons by (auto simp: parseRune_ascii)
  moreover have hi: "\<not> c0 < 0x80" using assms Cons calculation by (auto simp: parseRune_def)
  ultimately have "rune_loop q b (Suc 0) = (q', b', True, False)"
    using assms Cons by (auto simp: parseRune_def)
  then have "find (rune_hit q b) [Suc 0..<Suc (length b)] = None"
    by (auto simp: rune_loop_find split: option.splits prod.splits simp del: upt_Suc)
  then have "\<forall>l \<in> {1..length b}. \<not> rune_hit q b l"
    by (auto simp: find_None_iff simp del: upt_Suc)
  with hi Cons show ?thesis by simp
qed

lemma rune_complete_hit:
  assumes "parseRune q b = Some (q', b', p, True)" and "0x80 \<le> hd b"
  shows "\<exists>l \<in> {1..length b}. rune_hit q b l"
proof (cases b)
  case Nil
  with assms show ?thesis by (simp add: parseRune_def)
next
  case (Cons c0 rest)
  with assms(2) have hi: "\<not> c0 < 0x80" and "\<not> c0 \<le> 0x7F"
    by (simp_all add: word_less_nat_alt word_le_nat_alt)
  with assms(1) Cons have "rune_loop q b (Suc 0) = (q', b', p, True)"
    by (simp add: parseRune_def)
  then obtain n where "find (rune_hit q b) [Suc 0..<Suc (length b)] = Some n"
    by (auto simp: rune_loop_find split: option.splits simp del: upt_Suc)
  from find_SomeD [OF this] show ?thesis by (auto simp del: upt_Suc)
qed

lemma fk_complete_low:
  assumes "\<forall>(esc, k) \<in> set (keycodes q). esc \<noteq> []"
    and "\<forall>(esc, k) \<in> set (keycodes q). esc \<noteq> [0x1b] \<longrightarrow> hd esc < 0x80"
    and "parseFunctionKey q b = (q', b', p, True)"
  shows "\<exists>c \<in> set b. c < 0x80"
proof (cases "find (\<lambda>(esc, k). esc \<noteq> [0x1b] \<and> prefix esc b) (keycodes q)")
  case None
  with assms(3) show ?thesis by (simp add: parseFunctionKey_def fk_loop_find)
next
  case (Some ek)
  obtain e k where ek: "ek = (e, k)" by (cases ek)
  from find_SomeD [OF Some] ek have mem: "(e, k) \<in> set (keycodes q)" and pre: "prefix e b"
    and ne: "e \<noteq> [0x1b]" by auto
  from mem assms(1) have "e \<noteq> []" by auto
  with pre have "hd e \<in> set b" by (cases e) (auto simp: prefix_def)
  moreover from mem ne assms(2) have "hd e < 0x80" by auto
  ultimately show ?thesis by blast
qed

lemma xt_not_rejected:
  assumes "parseXtermMouse q b = (q', b', True, c)"
  shows "b = [] \<or> b = [0x1b] \<or> b = [0x1b, 0x5b] \<or> prefix [0x1b, 0x5b, 0x4d] b \<or>
         b = [0x9b] \<or> prefix [0x9b, 0x4d] b"
proof (cases b)
  case Nil
  then show ?thesis by simp
next
  case b0: (Cons c0 r0)
  show ?thesis
  proof (cases r0)
    case Nil
    with b0 assms show ?thesis
      by (auto simp: parseXtermMouse_def xt_init_def xt_byte_def xt_loop.simps [of _ _ _ 0]
          split: if_splits)
  next
    case b1: (Cons c1 r1)
    show ?thesis
    proof (cases r1)
      case Nil
      with b0 b1 assms show ?thesis
        by (auto simp: parseXtermMouse_def xt_init_def xt_byte_def xt_loop.simps [of _ _ _ 0]
            xt_loop.simps [of _ _ _ "Suc 0"] split: if_splits)
    next
      case b2: (Cons c2 r2)
      with b0 b1 assms show ?thesis
        by (auto simp: parseXtermMouse_def xt_init_def xt_byte_def xt_loop.simps [of _ _ _ 0]
            xt_loop.simps [of _ _ _ "Suc 0"] xt_loop.simps [of _ _ _ "Suc (Suc 0)"]
            split: if_splits)
    qed
  qed
qed

lemma sgr_on_xt_prefix:
  assumes "b = [] \<or> b = [0x1b] \<or> b = [0x1b, 0x5b] \<or> prefix [0x1b, 0x5b, 0x4d] b \<or>
         b = [0x9b] \<or> prefix [0x9b, 0x4d] b"
    and "parseSgrMouse q b = (q', b', p, c)"
  shows "\<not> c"
proof -
  have a: "\<not> c" if "b = []" using that assms(2)
    by (simp add: parseSgrMouse_def sgr_loop.simps [of _ _ _ 0])
  have b: "\<not> c" if "b = [0x1b] \<or> b = [0x9b]" using that assms(2)
    by (auto simp: parseSgrMouse_def sgr_init_def sgr_byte_def sgr_loop.simps [of _ _ _ 0]
        sgr_loop.simps [of _ _ _ "Suc 0"])
  have c: "\<not> c" if "b = [0x1b, 0x5b]" using that assms(2)
    by (auto simp: parseSgrMouse_def sgr_init_def sgr_byte_def sgr_loop.simps [of _ _ _ 0]
        sgr_loop.simps [of _ _ _ "Suc 0"] sgr_loop.simps [of _ _ _ "Suc (Suc 0)"])
  have d: "\<not> c" if "prefix [0x1b, 0x5b, 0x4d] b"
  proof -
    from that obtain r where "b = 0x1b # 0x5b # 0x4d # r" by (auto simp: prefix_def)
    with assms(2) show ?thesis
      by (auto simp: parseSgrMouse_def sgr_init_def sgr_byte_def sgr_loop.simps [of _ _ _ 0]
          sgr_loop.simps [of _ _ _ "Suc 0"] sgr_loop.simps [of _ _ _ "Suc (Suc 0)"])
  qed
  have e: "\<not> c" if "prefix [0x9b, 0x4d] b"
  proof -
    from that obtain r where "b = 0x9b # 0x4d # r" by (auto simp: prefix_def)
    with assms(2) show ?thesis
      by (auto simp: parseSgrMouse_def sgr_init_def sgr_byte_def sgr_loop.simps [of _ _ _ 0]
          sgr_loop.simps [of _ _ _ "Suc 0"])
  qed
  from assms(1) a b c d e show ?thesis by blast
qed

lemma sgr_byte_state:
  "sgr_byte s c = SgrNext s' \<Longrightarrow> sg_state s \<le> 2 \<Longrightarrow> sg_state s' \<le> 2 \<or> c = 0x3c"
  "sgr_byte s c = SgrFinal \<Longrightarrow> sg_state s = 5"
  by (auto simp: sgr_byte_def Let_def split: if_splits)

lemma sgr_complete_lt:
  "sgr_loop q b s i = (q', b', p, True) \<Longrightarrow> sg_state s \<le> 2 \<or> 0x3c \<in> set b \<Longrightarrow>
     0x3c \<in> set b"
proof (induction q b s i rule: sgr_loop.induct)
  case (1 q b s i)
  show ?case
  proof (cases "i < length b")
    case False
    with "1.prems" show ?thesis by (simp add: sgr_loop.simps [of q b s i])
  next
    case True
    show ?thesis
    proof (cases "sgr_byte s (b ! i)")
      case SgrReject
      with True "1.prems" show ?thesis by (simp add: sgr_loop.simps [of q b s i])
    next
      case (SgrNext s')
      with True "1.prems" have r: "sgr_loop q b s' (Suc i) = (q', b', p, True)"
        by (simp add: sgr_loop.simps [of q b s i])
      have "sg_state s' \<le> 2 \<or> 0x3c \<in> set b"
      proof (cases "0x3c \<in> set b")
        case False
        with "1.prems"(2) have "sg_state s \<le> 2" by simp
        from sgr_byte_state(1) [OF SgrNext this] False nth_mem [OF True] show ?thesis
          by metis
      qed simp
      from "1.IH" [OF True SgrNext r this] show ?thesis .
    next
      case SgrFinal
      from sgr_byte_state(2) [OF SgrFinal] "1.prems"(2) show ?thesis by simp
    qed
  qed
qed

lemma xt_complete_shape:
  assumes "parseXtermMouse q b = (q', b', p, True)"
  shows "prefix [0x1b, 0x5b, 0x4d] b \<or> prefix [0x9b, 0x4d] b"
proof (cases b)
  case Nil
  with assms show ?thesis by (simp add: parseXtermMouse_def xt_loop.simps [of _ _ _ 0])
next
  case b0: (Cons c0 r0)
  show ?thesis
  proof (cases r0)
    case Nil
    with b0 assms show ?thesis
      by (auto simp: parseXtermMouse_def xt_init_def xt_byte_def xt_loop.simps [of _ _ _ 0]
          xt_loop.simps [of _ _ _ "Suc 0"] split: if_splits)
  next
    case b1: (Cons c1 r1)
    show ?thesis
    proof (cases r1)
      case Nil
      with b0 b1 assms show ?thesis
        by (auto simp: parseXtermMouse_def xt_init_def xt_byte_def xt_loop.simps [of _ _ _ 0]
            xt_loop.simps [of _ _ _ "Suc 0"] xt_loop.simps [of _ _ _ "Suc (Suc 0)"]
            split: if_splits)
    next
      case b2: (Cons c2 r2)
      with b0 b1 assms show ?thesis
        by (auto simp: parseXtermMouse_def xt_init_def xt_byte_def xt_loop.simps [of _ _ _ 0]
            xt_loop.simps [of _ _ _ "Suc 0"] xt_loop.simps [of _ _ _ "Suc (Suc 0)"]
            split: if_splits)
    qed
  qed
qed

lemma xt_lone_esc: "parseXtermMouse q [0x1b] = (q, [0x1b], True, False)"
  by (simp add: parseXtermMouse_def xt_init_def xt_byte_def xt_loop.simps [of _ _ _ 0]
      xt_loop.simps [of _ _ _ "Suc 0"])

lemma decoder_ok_count:
  assumes "decoder_ok q"
  shows "\<forall>src. fst (snd (decoder q src)) \<le> length src"
proof
  fix src
  from assms have a: "\<forall>src. case decoder q src of (out, nin, e) \<Rightarrow>
      nin \<le> length src \<and> (e \<noteq> ErrShortSrc \<and> out \<noteq> [] \<longrightarrow> 0 < nin)"
    unfolding decoder_ok_def by (rule conjunct1)
  from spec [OF a, of src] show "fst (snd (decoder q src)) \<le> length src"
    by (cases "decoder q src") simp
qed

lemma decoder_ok_open:
  assumes "decoder_ok q" and "b \<noteq> []" and "0x80 \<le> hd b"
    and "\<forall>l \<in> {1..length b}. \<not> rune_hit q b l"
    and "\<exists>l \<in> {1..length (b @ ext)}. rune_hit q (b @ ext) l"
  shows "\<forall>c \<in> set b. 0x80 \<le> c"
proof -
  from assms(1) have a: "\<forall>b ext. b \<noteq> [] \<and> 0x80 \<le> hd b \<and>
      (\<forall>l \<in> {1..length b}. \<not> rune_hit q b l) \<and>
      (\<exists>l \<in> {1..length (b @ ext)}. rune_hit q (b @ ext) l) \<longrightarrow> (\<forall>c \<in> set b. 0x80 \<le> c)"
    unfolding decoder_ok_def by (rule conjunct2)
  from spec [OF spec [OF a, of b], of ext] assms(2-5) show ?thesis by blast
qed

lemma scanStep_eval:
  assumes "b \<noteq> []" and "parseRune q b = Some (q1, b1, p1, c1)"
  shows "scanStep q b e =
     (if c1 then Again q1 b1
      else case parseFunctionKey q1 b1 of (q2, b2, p2, c2) \<Rightarrow>
        if c2 then Again q2 b2
        else scanMouse q2 b b2 (if p2 then Suc (if p1 then 1 else 0) else (if p1 then 1 else 0)) e)"
  using assms by (simp add: scanStep_def Let_def)

lemma scanFallback_wait: "0 < partials \<Longrightarrow> scanFallback q b buf partials False = Done q buf"
  by (simp add: scanFallback_def)

lemma scanFallback_append:
  assumes "b \<noteq> []" and "b \<noteq> [0x1b]" and "scanFallback q b b 0 False = Again q' b'"
  shows "scanFallback q (b @ ext) (b @ ext) 0 False = Again q' (b' @ ext)"
proof (cases b)
  case Nil
  with assms show ?thesis by simp
next
  case (Cons c0 r0)
  with assms(2) have "c0 = 0x1b \<Longrightarrow> r0 \<noteq> []" by auto
  with assms(3) Cons show ?thesis
    by (auto simp: scanFallback_def Let_def split: if_splits)
qed

text \<open>
  The step of the loop that does not expire: under \<open>stable_config\<close>, a turn that
  continues on a buffer continues in the same way when bytes are appended to it.
\<close>

lemma scanStep_append:
  assumes st: "stable_config q" and step: "scanStep q b False = Again q' b'"
  shows "scanStep q (b @ ext) False = Again q' (b' @ ext)"
proof -
  from st have esc: "lone_esc_waits q" and keys: "keys_unambiguous q" and dok: "decoder_ok q"
    by (simp_all add: stable_config_def)
  from dok have dec: "\<forall>src. fst (snd (decoder q src)) \<le> length src"
    by (rule decoder_ok_count)
  from keys have ne: "\<forall>(esc, k) \<in> set (keycodes q). esc \<noteq> []"
    and pf: "\<forall>(e1, k1) \<in> set (keycodes q). \<forall>(e2, k2) \<in> set (keycodes q).
        e1 \<noteq> [0x1b] \<and> e2 \<noteq> [0x1b] \<and> prefix e1 e2 \<longrightarrow> e1 = e2"
    and low: "\<forall>(esc, k) \<in> set (keycodes q). esc \<noteq> [0x1b] \<longrightarrow> hd esc < 0x80"
    and nm: "ti_Mouse (ti q) \<noteq> [] \<Longrightarrow>
        \<forall>(esc, k) \<in> set (keycodes q). 0x3c \<notin> set esc \<and> \<not> prefix [0x1b, 0x5b, 0x4d] esc"
    by (simp_all add: keys_unambiguous_def)
  from step have bne: "b \<noteq> []" by (auto simp: scanStep_def Let_def)
  then have bne': "b @ ext \<noteq> []" by simp
  obtain q1 b1 p1 c1 where R: "parseRune q b = Some (q1, b1, p1, c1)"
    using parseRune_returns [OF bne] by blast
  note re = parseRune_effect [OF R]
  show ?thesis
  proof (cases c1)
    case True
    from parseRune_append [OF dec R, of ext] True
    have R': "parseRune q (b @ ext) = Some (q1, b1 @ ext, p1, True)" by simp
    from step True have "q' = q1" "b' = b1" by (simp_all add: scanStep_eval [OF bne R])
    with R' show ?thesis by (simp add: scanStep_eval [OF bne' R'])
  next
    case nc1: False
    with re have q1: "q1 = q" "b1 = b" by simp_all
    obtain q2 b2 p2 c2 where F: "parseFunctionKey q b = (q2, b2, p2, c2)"
      by (cases "parseFunctionKey q b")
    note fe = parseFunctionKey_effect [OF F]
    obtain q3 b3 p3 c3 where X: "parseXtermMouse q b = (q3, b3, p3, c3)"
      by (cases "parseXtermMouse q b")
    note xe = xt_loop_effect [OF X [unfolded parseXtermMouse_def]]
    obtain q4 b4 p4 c4 where S: "parseSgrMouse q b = (q4, b4, p4, c4)"
      by (cases "parseSgrMouse q b")
    note se = sgr_loop_effect [OF S [unfolded parseSgrMouse_def]]
    have waits: "0 < n \<Longrightarrow> \<not> c2 \<Longrightarrow> (ti_Mouse (ti q) \<noteq> [] \<Longrightarrow> \<not> c3 \<and> \<not> c4) \<Longrightarrow>
        scanMouse q b b n False = Done q b" for n
      using X S xe se by (auto simp: scanMouse_def Let_def scanFallback_wait)
    obtain q1' b1' p1' c1' where R0: "parseRune q (b @ ext) = Some (q1', b1', p1', c1')"
      using parseRune_returns [OF bne'] by blast
    have later: "\<not> c1' \<and> (\<not> p1 \<longrightarrow> \<not> p1')"
    proof (cases p1)
      case False
      from parseRune_append [OF dec R, of ext] nc1 False R0 show ?thesis by simp
    next
      case True
      have "\<not> c1'"
      proof
        assume c1'
        from R nc1 q1 True have "parseRune q b = Some (q, b, True, False)" by simp
        from rune_partial_nohit [OF this] have hb: "0x80 \<le> hd b"
          and nohit: "\<forall>l \<in> {1..length b}. \<not> rune_hit q b l" by simp_all
        from hb bne have "0x80 \<le> hd (b @ ext)" by simp
        with R0 \<open>c1'\<close> rune_complete_hit [of q "b @ ext" q1' b1' p1']
        have "\<exists>l \<in> {1..length (b @ ext)}. rune_hit q (b @ ext) l" by simp
        from decoder_ok_open [OF dok bne hb nohit this]
        have high: "\<forall>c \<in> set b. 0x80 \<le> c" .
        have "\<not> c2"
        proof
          assume c2
          with F fk_complete_low [OF ne low, of b q2 b2 p2] obtain c where "c \<in> set b" "c < 0x80"
            by auto
          with high show False by (auto simp: word_less_nat_alt word_le_nat_alt)
        qed
        moreover have "\<not> c3"
        proof
          assume c3
          with X xt_complete_shape [of q b q3 b3 p3] have "0x4d \<in> set b"
            by (auto simp: prefix_def)
          with high show False by fastforce
        qed
        moreover have "\<not> c4"
        proof
          assume c4
          with S have "0x3c \<in> set b"
            using sgr_complete_lt [of q b sgr_init 0 q4 b4 p4]
            by (simp add: parseSgrMouse_def sgr_init_def)
          with high show False by fastforce
        qed
        ultimately have "scanStep q b False = Done q b"
          using fe True nc1 q1 F waits [of "if p2 then Suc 1 else 1"]
          by (auto simp: scanStep_eval [OF bne R])
        with step show False by simp
      qed
      with True show ?thesis by simp
    qed
    with parseRune_effect [OF R0] R0
    have R': "parseRune q (b @ ext) = Some (q, b @ ext, p1', False)" by simp
    from later have p1': "\<not> p1 \<Longrightarrow> \<not> p1'" by simp
    define n1 :: nat where "n1 = (if p1 then 1 else 0)"
    define n1' :: nat where "n1' = (if p1' then 1 else 0)"
    from p1' have n0: "n1 = 0 \<Longrightarrow> n1' = 0" by (auto simp: n1_def n1'_def split: if_splits)
    show ?thesis
    proof (cases c2)
      case True
      from parseFunctionKey_append [OF pf ne F, of ext] True
      have F': "parseFunctionKey q (b @ ext) = (q2, b2 @ ext, p2, True)" by simp
      from step True nc1 q1 F have "q' = q2" "b' = b2"
        by (simp_all add: scanStep_eval [OF bne R])
      with F' show ?thesis by (simp add: scanStep_eval [OF bne' R'])
    next
      case nc2: False
      with fe have q2: "q2 = q" "b2 = b" by simp_all
      have not_p2: "\<not> p2"
      proof
        assume p2
        with F nc2 obtain e k where mem: "(e, k) \<in> set (keycodes q)" and ne1: "e \<noteq> [0x1b]"
          and pre: "prefix b e"
          by (auto simp: parseFunctionKey_def fk_loop_find split: option.splits)
        have "\<not> c3 \<and> \<not> c4" if m: "ti_Mouse (ti q) \<noteq> []"
        proof -
          from nm [OF m] mem have lt: "0x3c \<notin> set e" and np: "\<not> prefix [0x1b, 0x5b, 0x4d] e"
            by auto
          have "\<not> c3"
          proof
            assume c3
            with X xt_complete_shape [of q b q3 b3 p3]
            have "prefix [0x1b, 0x5b, 0x4d] b \<or> prefix [0x9b, 0x4d] b" by simp
            then show False
            proof
              assume "prefix [0x1b, 0x5b, 0x4d] b"
              with pre have "prefix [0x1b, 0x5b, 0x4d] e" by (metis prefix_order.order_trans)
              with np show False by simp
            next
              assume "prefix [0x9b, 0x4d] b"
              with pre have "prefix [0x9b, 0x4d] e" by (metis prefix_order.order_trans)
              then have "hd e = 0x9b" by (auto simp: prefix_def)
              with low mem ne1 show False by auto
            qed
          qed
          moreover have "\<not> c4"
          proof
            assume c4
            with S have "0x3c \<in> set b"
              using sgr_complete_lt [of q b sgr_init 0 q4 b4 p4]
              by (simp add: parseSgrMouse_def sgr_init_def)
            with pre have "0x3c \<in> set e" by (auto simp: prefix_def)
            with lt show False by simp
          qed
          ultimately show ?thesis by simp
        qed
        then have "scanStep q b False = Done q b"
          using \<open>p2\<close> nc1 nc2 q1 q2 F waits [of "Suc (if p1 then 1 else 0)"]
          by (auto simp: scanStep_eval [OF bne R])
        with step show False by simp
      qed
      from parseFunctionKey_append [OF pf ne F, of ext] nc2 not_p2 q2
      have F': "parseFunctionKey q (b @ ext) = (q, b @ ext, False, False)" by simp
      from step nc1 nc2 not_p2 q1 q2 F
      have M: "scanMouse q b b n1 False = Again q' b'"
        by (simp add: scanStep_eval [OF bne R] n1_def)
      have M': "scanStep q (b @ ext) False = scanMouse q (b @ ext) (b @ ext) n1' False"
        using F' by (simp add: scanStep_eval [OF bne' R'] n1'_def)
      show ?thesis
      proof (cases "ti_Mouse (ti q) \<noteq> []")
        case False
        with esc obtain e k where mem: "(e, k) \<in> set (keycodes q)" and len: "1 < length e"
          and hd: "hd e = 0x1b"
          by (auto simp: lone_esc_waits_def)
        have "b \<noteq> [0x1b]"
        proof
          assume b: "b = [0x1b]"
          from len hd have "prefix [0x1b] e" and "e \<noteq> [0x1b]"
            by (cases e; auto)+
          with b mem F nc2 not_p2 show False
            by (auto simp: parseFunctionKey_def fk_loop_find split: option.splits)
        qed
        have z: "n1 = 0"
        proof (rule ccontr)
          assume "n1 \<noteq> 0"
          with False have "scanMouse q b b n1 False = Done q b"
            by (simp add: scanMouse_def scanFallback_wait)
          with M show False by simp
        qed
        from scanFallback_append [OF bne \<open>b \<noteq> [0x1b]\<close>, of q q' b' ext] M False M' z n0 [OF z]
        show ?thesis by (simp add: scanMouse_def)
      next
        case m: True
        show ?thesis
        proof (cases c3)
          case True
          from xt_loop_append [OF X [unfolded parseXtermMouse_def], of ext] True
          have X': "parseXtermMouse q (b @ ext) = (q3, b3 @ ext, p3, True)"
            by (simp add: parseXtermMouse_def)
          from M m X True have "q' = q3" "b' = b3" by (simp_all add: scanMouse_def)
          with M' m X' show ?thesis by (simp add: scanMouse_def)
        next
          case nc3: False
          with xe have q3: "q3 = q" "b3 = b" by simp_all
          have nc4_if: "p3 \<Longrightarrow> \<not> c4"
            using sgr_on_xt_prefix [OF xt_not_rejected S] X by simp
          have not_p3: "\<not> p3"
          proof
            assume p3
            with nc4_if se M m X S nc3 q3 show False
              by (auto simp: scanMouse_def Let_def scanFallback_wait)
          qed
          from xt_loop_append [OF X [unfolded parseXtermMouse_def], of ext] nc3 not_p3 q3
          have X': "parseXtermMouse q (b @ ext) = (q, b @ ext, False, False)"
            by (simp add: parseXtermMouse_def)
          show ?thesis
          proof (cases c4)
            case True
            from sgr_loop_append [OF S [unfolded parseSgrMouse_def], of ext] True
            have S': "parseSgrMouse q (b @ ext) = (q4, b4 @ ext, p4, True)"
              by (simp add: parseSgrMouse_def)
            from M m X nc3 not_p3 q3 S True have "q' = q4" "b' = b4"
              by (simp_all add: scanMouse_def Let_def)
            with M' m X' S' show ?thesis by (simp add: scanMouse_def Let_def)
          next
            case nc4: False
            with se have q4: "q4 = q" "b4 = b" by simp_all
            have not_p4: "\<not> p4"
            proof
              assume p4
              with M m X nc3 not_p3 q3 S nc4 q4 show False
                by (simp add: scanMouse_def Let_def scanFallback_wait)
            qed
            from sgr_loop_append [OF S [unfolded parseSgrMouse_def], of ext] nc4 not_p4 q4
            have S': "parseSgrMouse q (b @ ext) = (q, b @ ext, False, False)"
              by (simp add: parseSgrMouse_def)
            have "b \<noteq> [0x1b]"
            proof
              assume "b = [0x1b]"
              with X xt_lone_esc [of q] not_p3 show False by simp
            qed
            from M m X nc3 not_p3 q3 S nc4 not_p4 q4
            have FB: "scanFallback q b b n1 False = Again q' b'"
              by (simp add: scanMouse_def Let_def)
            have z: "n1 = 0"
            proof (rule ccontr)
              assume "n1 \<noteq> 0"
              then have "scanFallback q b b n1 False = Done q b" by (simp add: scanFallback_wait)
              with FB show False by simp
            qed
            from scanFallback_append [OF bne \<open>b \<noteq> [0x1b]\<close>, of q q' b' ext] FB z
            have "scanFallback q (b @ ext) (b @ ext) 0 False = Again q' (b' @ ext)" by simp
            with M' m X' S' n0 [OF z] show ?thesis by (simp add: scanMouse_def Let_def)
          qed
        qed
      qed
    qed
  qed
qed

subsection \<open>Every turn that continues consumes a byte and keeps the configuration\<close>

lemma same_config_simps [simp]:
  "same_config q q"
  "same_config q (PostEvent q1 ev) = same_config q q1"
  "same_config q (postMouseEvent q1 x y btn) = same_config q q1"
  "same_config q (q1\<lparr>escaped := v\<rparr>) = same_config q q1"
  "same_config q (q1\<lparr>buttondn := w\<rparr>) = same_config q q1"
  by (simp_all add: same_config_def postMouseEvent_def PostEvent_def Let_def split: prod.splits)

lemma stable_config_cong: "same_config q q' \<Longrightarrow> stable_config q' = stable_config q"
  by (simp add: same_config_def stable_config_def lone_esc_waits_def keys_unambiguous_def
      decoder_ok_def rune_hit_def)

lemma parseRune_progress:
  assumes "decoder_ok q" and "parseRune q b = Some (q', b', p, True)"
  shows "same_config q q' \<and> length b' < length b"
proof (cases b)
  case Nil
  with assms show ?thesis by (simp add: parseRune_def)
next
  case (Cons c0 rest)
  show ?thesis
  proof (cases "0x20 \<le> c0 \<and> c0 \<le> 0x7F")
    case True
    with assms(2) Cons show ?thesis by (auto simp: parseRune_ascii)
  next
    case False
    show ?thesis
    proof (cases "c0 < 0x80")
      case True
      with False assms(2) Cons show ?thesis by (auto simp: parseRune_def)
    next
      case hi: False
      then have "\<not> c0 \<le> 0x7F" by (simp add: word_less_nat_alt word_le_nat_alt)
      with hi assms(2) Cons have r: "rune_loop q b (Suc 0) = (q', b', p, True)"
        by (simp add: parseRune_def)
      then obtain n where f: "find (rune_hit q b) [Suc 0..<Suc (length b)] = Some n"
        by (auto simp: rune_loop_find split: option.splits simp del: upt_Suc)
      obtain out nin e where d: "decoder q (take n b) = (out, nin, e)"
        by (cases "decoder q (take n b)")
      from find_SomeD [OF f] d have hit: "e \<noteq> ErrShortSrc" "out \<noteq> []"
        by (simp_all add: rune_hit_def)
      from assms(1) have "\<forall>src. case decoder q src of (out, nin, e) \<Rightarrow>
          nin \<le> length src \<and> (e \<noteq> ErrShortSrc \<and> out \<noteq> [] \<longrightarrow> 0 < nin)"
        unfolding decoder_ok_def by (rule conjunct1)
      from spec [OF this, of "take n b"] d hit have "0 < nin" by simp
      with r f d Cons show ?thesis
        by (auto simp: rune_loop_find simp del: upt_Suc)
    qed
  qed
qed

lemma parseFunctionKey_progress:
  assumes "\<forall>(esc, k) \<in> set (keycodes q). esc \<noteq> []"
    and "parseFunctionKey q b = (q', b', p, True)"
  shows "same_config q q' \<and> length b' < length b"
proof (cases "find (\<lambda>(esc, k). esc \<noteq> [0x1b] \<and> prefix esc b) (keycodes q)")
  case None
  with assms(2) show ?thesis by (simp add: parseFunctionKey_def fk_loop_find)
next
  case (Some ek)
  obtain e k where ek: "ek = (e, k)" by (cases ek)
  from find_SomeD [OF Some] ek have mem: "(e, k) \<in> set (keycodes q)" and pre: "prefix e b"
    by auto
  from mem assms(1) have "e \<noteq> []" by auto
  with pre have "0 < length e" "length e \<le> length b" "0 < length b"
    by (auto simp: prefix_def)
  with Some ek assms(2) show ?thesis
    by (auto simp: parseFunctionKey_def fk_loop_find)
qed

lemma xt_loop_progress:
  "xt_loop q b s i = (q', b', p, True) \<Longrightarrow> same_config q q' \<and> length b' < length b"
proof (induction q b s i rule: xt_loop.induct)
  case (1 q b s i)
  show ?case
  proof (cases "i < length b")
    case False
    with "1.prems" show ?thesis by (auto simp: xt_loop.simps [of q b s i])
  next
    case True
    show ?thesis
    proof (cases "xt_byte s (b ! i)")
      case XtReject
      with True "1.prems" show ?thesis by (auto simp: xt_loop.simps [of q b s i])
    next
      case (XtNext s')
      with True "1.prems" have "xt_loop q b s' (Suc i) = (q', b', p, True)"
        by (simp add: xt_loop.simps [of q b s i])
      from "1.IH" [OF True XtNext this] show ?thesis .
    next
      case (XtFinal y)
      with True "1.prems" show ?thesis
        by (auto simp: xt_loop.simps [of q b s i])
    qed
  qed
qed

lemma sgr_loop_progress:
  "sgr_loop q b s i = (q', b', p, True) \<Longrightarrow> same_config q q' \<and> length b' < length b"
proof (induction q b s i rule: sgr_loop.induct)
  case (1 q b s i)
  show ?case
  proof (cases "i < length b")
    case False
    with "1.prems" show ?thesis by (auto simp: sgr_loop.simps [of q b s i])
  next
    case True
    show ?thesis
    proof (cases "sgr_byte s (b ! i)")
      case SgrReject
      with True "1.prems" show ?thesis by (auto simp: sgr_loop.simps [of q b s i])
    next
      case (SgrNext s')
      with True "1.prems" have "sgr_loop q b s' (Suc i) = (q', b', p, True)"
        by (simp add: sgr_loop.simps [of q b s i])
      from "1.IH" [OF True SgrNext this] show ?thesis .
    next
      case SgrFinal
      with True "1.prems" have "sgr_final q b s i = (q', b', p, True)"
        by (simp add: sgr_loop.simps [of q b s i])
      with True show ?thesis
        by (auto simp: sgr_final_def Let_def split: if_splits)
    qed
  qed
qed

lemma scanFallback_progress:
  assumes "b \<noteq> []" and "scanFallback q b b partials expire = Again q' b'"
  shows "same_config q q' \<and> length b' < length b"
  using assms
  by (cases b) (auto simp: scanFallback_def Let_def split: if_splits)

lemma scanFallback_Done: "scanFallback q b buf partials expire = Done q' b' \<Longrightarrow> q' = q \<and> b' = buf"
  by (auto simp: scanFallback_def Let_def split: if_splits prod.splits)

lemma scanFallback_no_panic: "scanFallback q b buf partials expire \<noteq> Panic"
  by (auto simp: scanFallback_def Let_def split: if_splits prod.splits)

lemma scanMouse_cases:
  assumes "b \<noteq> []"
  shows "(\<exists>q' b'. scanMouse q b b partials expire = Again q' b' \<and> same_config q q' \<and>
            length b' < length b) \<or>
         scanMouse q b b partials expire = Done q b"
proof -
  obtain q3 b3 p3 c3 where X: "parseXtermMouse q b = (q3, b3, p3, c3)"
    by (cases "parseXtermMouse q b")
  note xe = xt_loop_effect [OF X [unfolded parseXtermMouse_def]]
  obtain q4 b4 p4 c4 where S: "parseSgrMouse q b = (q4, b4, p4, c4)"
    by (cases "parseSgrMouse q b")
  note se = sgr_loop_effect [OF S [unfolded parseSgrMouse_def]]
  have fb: "(\<exists>q' b'. scanFallback q b b n expire = Again q' b' \<and> same_config q q' \<and>
            length b' < length b) \<or> scanFallback q b b n expire = Done q b" for n
  proof (cases "scanFallback q b b n expire")
    case (Done q' b')
    with scanFallback_Done [OF Done] show ?thesis by simp
  next
    case (Again q' b')
    with scanFallback_progress [OF assms Again] show ?thesis by simp
  next
    case Panic
    with scanFallback_no_panic show ?thesis by blast
  qed
  show ?thesis
  proof (cases "ti_Mouse (ti q) \<noteq> []")
    case False
    with fb [of partials] show ?thesis by (simp add: scanMouse_def)
  next
    case m: True
    show ?thesis
    proof (cases c3)
      case True
      with X xt_loop_progress [of q b xt_init 0 q3 b3 p3] m show ?thesis
        by (simp add: scanMouse_def parseXtermMouse_def)
    next
      case nc3: False
      with xe have q3: "q3 = q" "b3 = b" by simp_all
      show ?thesis
      proof (cases c4)
        case True
        with S sgr_loop_progress [of q b sgr_init 0 q4 b4 p4] m X nc3 q3 show ?thesis
          by (simp add: scanMouse_def parseSgrMouse_def Let_def)
      next
        case False
        with se have "q4 = q" "b4 = b" by simp_all
        with False m X nc3 q3 S
          fb [of "if p4 then Suc (if p3 then Suc partials else partials)
                  else (if p3 then Suc partials else partials)"]
        show ?thesis by (simp add: scanMouse_def Let_def)
      qed
    qed
  qed
qed

lemma scanStep_cases:
  assumes "stable_config q"
  shows "(\<exists>q' b'. scanStep q b expire = Again q' b' \<and> stable_config q' \<and> length b' < length b) \<or>
         scanStep q b expire = Done q b"
proof (cases "b = []")
  case True
  then show ?thesis by (simp add: scanStep_def)
next
  case bne: False
  from assms have keys: "keys_unambiguous q" and dok: "decoder_ok q"
    by (simp_all add: stable_config_def)
  from keys have ne: "\<forall>(esc, k) \<in> set (keycodes q). esc \<noteq> []"
    by (simp add: keys_unambiguous_def)
  obtain q1 b1 p1 c1 where R: "parseRune q b = Some (q1, b1, p1, c1)"
    using parseRune_returns [OF bne] by blast
  note re = parseRune_effect [OF R]
  show ?thesis
  proof (cases c1)
    case True
    with R parseRune_progress [OF dok, of b q1 b1 p1] stable_config_cong [of q q1] assms
    show ?thesis by (simp add: scanStep_eval [OF bne R])
  next
    case nc1: False
    with re have q1: "q1 = q" "b1 = b" by simp_all
    obtain q2 b2 p2 c2 where F: "parseFunctionKey q b = (q2, b2, p2, c2)"
      by (cases "parseFunctionKey q b")
    note fe = parseFunctionKey_effect [OF F]
    show ?thesis
    proof (cases c2)
      case True
      with F parseFunctionKey_progress [OF ne, of b q2 b2 p2] stable_config_cong [of q q2] assms
        nc1 q1
      show ?thesis by (simp add: scanStep_eval [OF bne R])
    next
      case False
      with fe have "q2 = q" "b2 = b" by simp_all
      with False nc1 q1 F
      have "scanStep q b expire =
          scanMouse q b b (if p2 then Suc (if p1 then 1 else 0) else (if p1 then 1 else 0)) expire"
        by (simp add: scanStep_eval [OF bne R])
      with scanMouse_cases [OF bne, of q _ expire] stable_config_cong [of q] assms
      show ?thesis by metis
    qed
  qed
qed

text \<open>Under \<open>stable_config\<close> the loop of \<open>scanInput\<close> returns, on a screen that is stable again.\<close>

lemma scanInput_returns:
  "stable_config q \<Longrightarrow> \<exists>q' b'. scanInput q b expire = Some (q', b') \<and> stable_config q'"
proof (induction "length b" arbitrary: q b rule: less_induct)
  case less
  from scanStep_cases [OF less.prems, of b expire] show ?case
  proof
    assume "\<exists>q' b'. scanStep q b expire = Again q' b' \<and> stable_config q' \<and> length b' < length b"
    then obtain q' b' where s: "scanStep q b expire = Again q' b'" and st: "stable_config q'"
      and l: "length b' < length b" by blast
    from less.hyps [OF l st] s show ?thesis by (simp add: scanInput.simps [of q b])
  next
    assume "scanStep q b expire = Done q b"
    with less.prems show ?thesis by (simp add: scanInput.simps [of q b])
  qed
qed

lemma scanInput_append:
  "stable_config q \<Longrightarrow> scanInput q b False = Some (q1, r1) \<Longrightarrow>
     scanInput q (b @ ext) False = scanInput q1 (r1 @ ext) False"
proof (induction "length b" arbitrary: q b rule: less_induct)
  case less
  from scanStep_cases [OF less.prems(1), of b False] show ?case
  proof
    assume "\<exists>q' b'. scanStep q b False = Again q' b' \<and> stable_config q' \<and> length b' < length b"
    then obtain q' b' where s: "scanStep q b False = Again q' b'" and st: "stable_config q'"
      and l: "length b' < length b" by blast
    from s less.prems(2) have "scanInput q' b' False = Some (q1, r1)"
      by (simp add: scanInput.simps [of q b])
    from less.hyps [OF l st this]
    have "scanInput q' (b' @ ext) False = scanInput q1 (r1 @ ext) False" .
    with scanStep_append [OF less.prems(1) s, of ext] show ?thesis
      by (simp add: scanInput.simps [of q "b @ ext"])
  next
    assume "scanStep q b False = Done q b"
    with less.prems(2) show ?thesis by (simp add: scanInput.simps [of q b])
  qed
qed

subsection \<open>The UTF-8 decoder\<close>

text \<open>
  The UTF-8 decoder meets \<open>decoder_ok\<close>: a prefix with output is a complete encoding, so
  a buffer without such a prefix that gets one when bytes are appended is the proper start
  of an encoding of two to four bytes, all of them \<open>0x80\<close> or above.
\<close>

lemma utf8_size_cases: "utf8_size c = 0 \<or> utf8_size c = 1 \<or> utf8_size c = 2 \<or> utf8_size c = 3 \<or> utf8_size c = 4"
  by (simp add: utf8_size_def)

lemma utf8_rune_len_le: "utf8_rune_len p \<le> length p"
  using utf8_size_cases [of "hd p"]
  by (cases p) (auto simp: utf8_rune_len_def Let_def Suc_le_eq split: if_splits)

lemma utf8_scan_le: "utf8_scan p \<le> length p"
proof (induction p rule: utf8_scan.induct)
  case (1 p)
  show ?case
  proof (cases "utf8_rune_len p = 0")
    case True
    then show ?thesis by (simp add: utf8_scan.simps [of p])
  next
    case False
    from "1.IH" [OF refl False] utf8_rune_len_le [of p] False show ?thesis
      by (simp add: utf8_scan.simps [of p] Let_def)
  qed
qed

lemma utf8_scan_pos: "0 < utf8_scan p \<longleftrightarrow> 0 < utf8_rune_len p"
  by (simp add: utf8_scan.simps [of p] Let_def)

lemma utf8_hit:
  "decoder q = utf8_validator \<Longrightarrow> rune_hit q b l \<longleftrightarrow> 0 < utf8_rune_len (take l b)"
  using utf8_scan_pos [of "take l b"] utf8_rune_len_le [of "take l b"]
  by (auto simp: rune_hit_def utf8_validator_def Let_def)

lemma utf8_rune_len_size:
  "0 < utf8_rune_len p \<Longrightarrow> p \<noteq> [] \<and> utf8_rune_len p = utf8_size (hd p)"
  using utf8_size_cases [of "hd p"]
  by (cases p) (auto simp: utf8_rune_len_def Let_def split: if_splits)

lemma utf8_rune_len_take:
  assumes "0 < utf8_rune_len p" and "utf8_rune_len p \<le> m"
  shows "utf8_rune_len (take m p) = utf8_rune_len p"
proof (cases p)
  case Nil
  with assms show ?thesis by (simp add: utf8_rune_len_def)
next
  case (Cons p0 r)
  from utf8_rune_len_size [OF assms(1)] Cons have sz: "utf8_rune_len p = utf8_size p0" by simp
  with assms have m: "utf8_size p0 \<le> m" "0 < utf8_size p0" by simp_all
  then obtain m' where m': "m = Suc m'" by (cases m) auto
  from utf8_rune_len_le [of p] sz have l: "utf8_size p0 \<le> length p" by simp
  from m l utf8_size_cases [of p0] show ?thesis
    unfolding utf8_rune_len_def Cons m' Let_def
    by (auto simp: nth_Cons' min_def)
qed

lemma utf8_size_high: "1 < utf8_size c \<Longrightarrow> 0x80 \<le> c"
  by (auto simp: utf8_size_def word_le_nat_alt word_less_nat_alt split: if_splits)

lemma utf8_cont_high: "utf8_cont (utf8_lo c0) (utf8_hi c0) c \<Longrightarrow> 0x80 \<le> c"
  "utf8_cont 0x80 0xBF c \<Longrightarrow> 0x80 \<le> c"
  by (auto simp: utf8_cont_def utf8_lo_def word_le_nat_alt split: if_splits)

lemma utf8_rune_len_high:
  assumes "1 < utf8_rune_len p" and "i < utf8_rune_len p"
  shows "0x80 \<le> p ! i"
proof (cases p)
  case Nil
  with assms show ?thesis by (simp add: utf8_rune_len_def)
next
  case (Cons p0 r)
  from assms(1) utf8_rune_len_size [of p] Cons have sz: "utf8_rune_len p = utf8_size p0" by simp
  with assms(1) have h0: "0x80 \<le> p0" by (simp add: utf8_size_high)
  from assms(1) Cons have
    c1: "utf8_cont (utf8_lo p0) (utf8_hi p0) (p ! 1)" and
    c2: "2 < utf8_size p0 \<Longrightarrow> utf8_cont 0x80 0xBF (p ! 2)" and
    c3: "3 < utf8_size p0 \<Longrightarrow> utf8_cont 0x80 0xBF (p ! 3)"
    using utf8_size_cases [of p0]
    by (auto simp: utf8_rune_len_def Let_def split: if_splits)
  from assms(2) sz utf8_size_cases [of p0] have "i = 0 \<or> i = 1 \<or> (i = 2 \<and> 2 < utf8_size p0) \<or> (i = 3 \<and> 3 < utf8_size p0)"
    by auto
  with h0 c1 c2 c3 Cons utf8_cont_high show ?thesis by auto
qed


lemma utf8_open_high:
  assumes nohit: "\<forall>l \<in> {1..length b}. utf8_rune_len (take l b) = 0"
    and hit: "0 < utf8_rune_len (take l (b @ ext))"
  shows "\<forall>c \<in> set b. 0x80 \<le> c"
proof -
  define s where "s = take l (b @ ext)"
  define n where "n = utf8_rune_len s"
  from hit have pos: "0 < utf8_rune_len s" by (simp add: s_def)
  from utf8_rune_len_le [of s] have nl: "n \<le> l" and ns: "n \<le> length s"
    by (simp_all add: n_def s_def)
  have big: "length b < n"
  proof (rule ccontr)
    assume "\<not> length b < n"
    then have le: "n \<le> length b" by simp
    from utf8_rune_len_take [OF pos order_refl] have "utf8_rune_len (take n s) = n"
      by (simp add: n_def)
    moreover from nl le have "take n s = take n b" by (simp add: s_def min_absorb1)
    ultimately have "utf8_rune_len (take n b) = n" by simp
    moreover from pos have "0 < n" by (simp add: n_def)
    ultimately show False using nohit le by auto
  qed
  show ?thesis
  proof
    fix c assume "c \<in> set b"
    then obtain i where i: "i < length b" and c: "c = b ! i" by (auto simp: in_set_conv_nth)
    from i big nl have "s ! i = b ! i" by (simp add: s_def nth_append)
    moreover from i big have "0x80 \<le> s ! i"
      unfolding n_def by (intro utf8_rune_len_high) simp_all
    ultimately show "0x80 \<le> c" using c by simp
  qed
qed

lemma utf8_decoder_ok:
  assumes d: "decoder q = utf8_validator"
  shows "decoder_ok q"
proof -
  have 1: "case decoder q src of (out, nin, e) \<Rightarrow>
        nin \<le> length src \<and> (e \<noteq> ErrShortSrc \<and> out \<noteq> [] \<longrightarrow> 0 < nin)" for src
    using utf8_scan_le [of src] by (auto simp: d utf8_validator_def Let_def)
  have 2: "\<forall>c \<in> set b. 0x80 \<le> c"
    if "b \<noteq> [] \<and> 0x80 \<le> hd b \<and> (\<forall>l \<in> {1..length b}. \<not> rune_hit q b l) \<and>
        (\<exists>l \<in> {1..length (b @ ext)}. rune_hit q (b @ ext) l)" for b ext
  proof -
    from that have nohit: "\<forall>l \<in> {1..length b}. utf8_rune_len (take l b) = 0"
      by (simp add: utf8_hit [OF d])
    from that obtain l where "0 < utf8_rune_len (take l (b @ ext))"
      by (auto simp: utf8_hit [OF d])
    from utf8_open_high [OF nohit this] show ?thesis .
  qed
  from 1 2 show ?thesis unfolding decoder_ok_def by blast
qed

subsection \<open>The claim\<close>

text \<open>
  C1, as amended. On a screen whose configuration is stable, that is: a lone \<open>0x1B\<close> is a
  partial match (mouse support, or a key sequence of more than one byte that starts with
  \<open>0x1B\<close>); no key sequence is empty and, the skipped entry \<open>0x1B\<close> apart, none is a
  prefix of another, each starts with a byte below \<open>0x80\<close> and, with mouse support, none
  contains \<open><\<close> or starts with \<open>ESC [ M\<close>; the decoder never counts more source bytes
  than it was given, counts at least one when it has written output without
  \<open>ErrShortSrc\<close>, and a buffer that starts with a byte of \<open>0x80\<close> or above, for no prefix
  of which the decoder writes output without \<open>ErrShortSrc\<close>, but for which it does so
  once more bytes are appended, has only bytes of \<open>0x80\<close> or above. Then for every input
  \<open>s\<close> and every split index \<open>k\<close>: delivering \<open>s\<close> in one piece and delivering \<open>s[:k]\<close>
  followed by \<open>s[k:]\<close>, with the expiring scan after all bytes, both return, with the
  same screen (so the same posted events, in the same order) and the same buffer.
\<close>

theorem scan_split_whole:
  assumes "stable_config q"
  shows "scan_split q s k = scan_whole q s \<and> (\<exists>q' buf'. scan_whole q s = Some (q', buf'))"
proof -
  from scanInput_returns [OF assms, of "take k s" False]
  obtain qa ra where a: "scanInput q (take k s) False = Some (qa, ra)" by blast
  from scanInput_append [OF assms a, of "drop k s"]
  have b: "scanInput qa (ra @ drop k s) False = scanInput q s False" by simp
  from scanInput_returns [OF assms, of s False]
  obtain qb rb where c: "scanInput q s False = Some (qb, rb)" and st: "stable_config qb"
    by blast
  from scanInput_returns [OF st, of rb True]
  obtain qc rc where d: "scanInput qb rb True = Some (qc, rc)" by blast
  from a b c have "scan_split q s k = scan_whole q s"
    by (simp add: scan_split_def scan_whole_def inputChunk_def)
  moreover from c d have "\<exists>q' buf'. scan_whole q s = Some (q', buf')"
    by (simp add: scan_whole_def inputChunk_def inputEOF_def)
  ultimately show ?thesis by simp
qed

text \<open>
  The configuration is stable on the terminal with mouse and escape sequences, with a
  single-byte charset (the decoder has output for every first byte) and with UTF-8.
\<close>

lemma latin1_hit: "b \<noteq> [] \<Longrightarrow> decoder q = latin1_decoder \<Longrightarrow> rune_hit q b 1"
  by (cases b) (simp_all add: rune_hit_def latin1_decoder_def)

lemma stable_ex_xterm: "stable_config ex_xterm"
proof -
  have 1: "lone_esc_waits ex_xterm"
    by (simp add: lone_esc_waits_def ex_xterm_def ex_screen_def ex_ti_def)
  have 2: "keys_unambiguous ex_xterm"
    by (simp add: keys_unambiguous_def ex_xterm_def ex_screen_def ex_ti_def)
  have d: "decoder ex_xterm = latin1_decoder" by (simp add: ex_xterm_def ex_screen_def)
  have "case decoder ex_xterm src of (out, nin, e) \<Rightarrow>
        nin \<le> length src \<and> (e \<noteq> ErrShortSrc \<and> out \<noteq> [] \<longrightarrow> 0 < nin)" for src
    by (cases src) (simp_all add: d latin1_decoder_def)
  moreover have "\<forall>c \<in> set b. 0x80 \<le> c"
    if "b \<noteq> [] \<and> 0x80 \<le> hd b \<and> (\<forall>l \<in> {1..length b}. \<not> rune_hit ex_xterm b l) \<and>
        (\<exists>l \<in> {1..length (b @ ext)}. rune_hit ex_xterm (b @ ext) l)" for b ext
  proof -
    from that have "b \<noteq> []" and "\<not> rune_hit ex_xterm b 1" by (cases b; simp)+
    with latin1_hit [OF _ d] show ?thesis by blast
  qed
  ultimately have 3: "decoder_ok ex_xterm" unfolding decoder_ok_def by blast
  from 1 2 3 show ?thesis by (simp add: stable_config_def)
qed

lemma stable_ex_xterm_utf8: "stable_config ex_xterm_utf8"
proof -
  have 1: "lone_esc_waits ex_xterm_utf8"
    by (simp add: lone_esc_waits_def ex_xterm_utf8_def ex_xterm_def ex_screen_def ex_ti_def)
  have 2: "keys_unambiguous ex_xterm_utf8"
    by (simp add: keys_unambiguous_def ex_xterm_utf8_def ex_xterm_def ex_screen_def ex_ti_def)
  have "decoder ex_xterm_utf8 = utf8_validator" by (simp add: ex_xterm_utf8_def)
  from 1 2 utf8_decoder_ok [OF this] show ?thesis by (simp add: stable_config_def)
qed

text \<open>
  Two inputs on the UTF-8 terminal: \<open>Up\<close>, \<open>U+00E9\<close> and \<open>ESC A\<close>, split inside the
  two-byte encoding; and the invalid sequence \<open>0xC3 0x41\<close> followed by \<open>Up\<close>, split after
  the lead byte. The decoder has no output for the invalid sequence, whatever follows:
  the bytes stay in the buffer until the scan expires and then leave it as raw bytes.
\<close>

theorem scan_split_whole_witness:
  "stable_config ex_xterm_utf8 \<and>
   scan_split ex_xterm_utf8 [0x1b, 0x5b, 0x41, 0xC3, 0xA9, 0x1b, 0x41] 4 =
     scan_whole ex_xterm_utf8 [0x1b, 0x5b, 0x41, 0xC3, 0xA9, 0x1b, 0x41] \<and>
   map_option (\<lambda>(q, buf). (posted q, buf))
      (scan_whole ex_xterm_utf8 [0x1b, 0x5b, 0x41, 0xC3, 0xA9, 0x1b, 0x41]) =
     Some ([EventKey (Key 257) 0 {}, EventKey KeyRune 0xE9 {}, EventKey KeyRune 0x41 {ModAlt}], []) \<and>
   scan_split ex_xterm_utf8 [0xC3, 0x41, 0x1b, 0x5b, 0x41] 1 =
     scan_whole ex_xterm_utf8 [0xC3, 0x41, 0x1b, 0x5b, 0x41] \<and>
   map_option (\<lambda>(q, buf). (posted q, buf))
      (scan_whole ex_xterm_utf8 [0xC3, 0x41, 0x1b, 0x5b, 0x41]) =
     Some ([EventKey KeyRune 0xC3 {}, EventKey KeyRune 0x41 {}, EventKey (Key 257) 0 {}], [])"
proof -
  have e1: "map_option (\<lambda>(q, buf). (posted q, buf))
      (scan_whole ex_xterm_utf8 [0x1b, 0x5b, 0x41, 0xC3, 0xA9, 0x1b, 0x41]) =
     Some ([EventKey (Key 257) 0 {}, EventKey KeyRune 0xE9 {}, EventKey KeyRune 0x41 {ModAlt}], [])"
    by code_simp
  have e2: "map_option (\<lambda>(q, buf). (posted q, buf))
      (scan_whole ex_xterm_utf8 [0xC3, 0x41, 0x1b, 0x5b, 0x41]) =
     Some ([EventKey KeyRune 0xC3 {}, EventKey KeyRune 0x41 {}, EventKey (Key 257) 0 {}], [])"
    by code_simp
  from scan_split_whole [OF stable_ex_xterm_utf8, of "[0x1b, 0x5b, 0x41, 0xC3, 0xA9, 0x1b, 0x41]" 4]
    scan_split_whole [OF stable_ex_xterm_utf8, of "[0xC3, 0x41, 0x1b, 0x5b, 0x41]" 1]
    stable_ex_xterm_utf8 e1 e2
  show ?thesis by simp
qed

text \<open>
  C1, as stated, fails on a terminal without mouse and without key sequences that start
  with \<open>0x1B\<close>. The input \<open>0x1B 0x41\<close> in one piece is one event, \<open>Key{Rune, A, Alt}\<close>;
  split after the first byte it is two, \<open>Key{Esc, 0, None}\<close> and \<open>Key{Rune, A, None}\<close>.
\<close>

theorem scan_split_whole_counterexample:
  "map_option (\<lambda>(q, buf). (posted q, buf)) (scan_whole ex_screen [0x1b, 0x41]) =
     Some ([EventKey KeyRune 0x41 {ModAlt}], []) \<and>
   map_option (\<lambda>(q, buf). (posted q, buf)) (scan_split ex_screen [0x1b, 0x41] 1) =
     Some ([EventKey KeyEsc 0 {}, EventKey KeyRune 0x41 {}], [])"
  by code_simp

text \<open>
  The conditions on the key table are needed. Where a key sequence is a prefix of another
  one, starts with the lead byte of a UTF-8 encoding, or starts as a mouse report does,
  the events depend on the split, although a lone \<open>0x1B\<close> waits (the three screens have
  mouse support) and the decoder is a single-byte one or the UTF-8 decoder.
\<close>

lemma split_differs_prefix_keys:
  "lone_esc_waits ex_prefix_keys \<and>
   map_option (\<lambda>(q, buf). (posted q, buf)) (scan_whole ex_prefix_keys [0x01, 0x02]) =
     Some ([EventKey (Key 300) 0 {}], []) \<and>
   map_option (\<lambda>(q, buf). (posted q, buf)) (scan_split ex_prefix_keys [0x01, 0x02] 1) =
     Some ([EventKey (Key 1) 0x01 {ModCtrl}, EventKey KeyRune 0x02 {}], [])"
  by code_simp

lemma split_differs_high_key:
  "lone_esc_waits ex_high_key \<and>
   map_option (\<lambda>(q, buf). (posted q, buf)) (scan_whole ex_high_key [0xC3, 0xA9]) =
     Some ([EventKey KeyRune 0xE9 {}], []) \<and>
   map_option (\<lambda>(q, buf). (posted q, buf)) (scan_split ex_high_key [0xC3, 0xA9] 1) =
     Some ([EventKey (Key 301) 0xC3 {}, EventKey KeyRune 0xA9 {}], [])"
  by code_simp

lemma split_differs_mouse_key:
  "lone_esc_waits ex_mouse_key \<and>
   map_option (\<lambda>(q, buf). (posted q, buf))
      (scan_whole ex_mouse_key [0x1b, 0x5b, 0x4d, 0x20, 0x21, 0x21, 0x7e]) =
     Some ([EventKey (Key 302) 0 {}], []) \<and>
   map_option (\<lambda>(q, buf). (posted q, buf))
      (scan_split ex_mouse_key [0x1b, 0x5b, 0x4d, 0x20, 0x21, 0x21, 0x7e] 6) =
     Some ([EventMouse 0 0 Button1 {}, EventKey KeyRune 0x7e {}], [])"
  by code_simp

end
